theory Spec2Isabelle
  imports Main
begin

section \<open>Characters, strings and errors\<close>

text \<open>
  The program is the Python module \<^verbatim>\<open>nfa_gui.py\<close>. Its strings are sequences of
  Unicode code points, so a character is modelled by its code point (what Python's
  \<^verbatim>\<open>ord\<close> returns) and a string by the list of its code points. With this reading
  \<^verbatim>\<open>ord\<close> and \<^verbatim>\<open>chr\<close> are the identity. ASCII literals are written through
  \<open>of_char\<close>; the symbol of the epsilon transitions, the one-character string
  \<^verbatim>\<open>'\<epsilon>'\<close> (U+03B5), has code point 949.
\<close>

type_synonym uchar = nat
type_synonym ustring = "uchar list"

definition ustr :: "string \<Rightarrow> ustring" where
  "ustr s = map of_char s"

abbreviation LBRACKET :: uchar where "LBRACKET \<equiv> of_char CHR ''[''"
abbreviation RBRACKET :: uchar where "RBRACKET \<equiv> of_char CHR '']''"
abbreviation MINUS :: uchar where "MINUS \<equiv> of_char CHR ''-''"
abbreviation LPAREN :: uchar where "LPAREN \<equiv> of_char CHR ''(''"
abbreviation RPAREN :: uchar where "RPAREN \<equiv> of_char CHR '')''"
abbreviation BAR :: uchar where "BAR \<equiv> of_char CHR ''|''"
abbreviation STAR :: uchar where "STAR \<equiv> of_char CHR ''*''"
abbreviation PLUS :: uchar where "PLUS \<equiv> of_char CHR ''+''"
abbreviation QMARK :: uchar where "QMARK \<equiv> of_char CHR ''?''"
abbreviation DOT :: uchar where "DOT \<equiv> of_char CHR ''.''"

definition EPSILON :: uchar where
  "EPSILON = 949"

text \<open>
  The exceptions the three conversion functions can raise: the \<^verbatim>\<open>ValueError\<close>s of
  \<^verbatim>\<open>expand_character_classes\<close> with their messages, the \<^verbatim>\<open>IndexError\<close> of
  \<^verbatim>\<open>list.pop()\<close> on an empty list, and the \<^verbatim>\<open>KeyError\<close> of a dictionary lookup.
\<close>

datatype error = ValueError string | IndexError | KeyError

section \<open>Expansion of character classes\<close>

text \<open>\<^verbatim>\<open>sep.join(parts)\<close> on a list of strings.\<close>

fun join :: "ustring \<Rightarrow> ustring list \<Rightarrow> ustring" where
  "join sep [] = []"
| "join sep [p] = p"
| "join sep (p # q # ps) = p @ sep @ join sep (q # ps)"

text \<open>\<^verbatim>\<open>[chr(c) for c in range(ord(start), ord(end)+1)]\<close>: a list of one-character strings.\<close>

definition class_chars :: "uchar \<Rightarrow> uchar \<Rightarrow> ustring list" where
  "class_chars start endc = map (\<lambda>c. [c]) [start..<endc + 1]"

text \<open>
  The outer \<^verbatim>\<open>while i < len(regex)\<close> loop. The first argument is the part of the
  pattern from index \<^verbatim>\<open>i\<close> on, the second the accumulator \<^verbatim>\<open>expanded\<close>. The inner
  loop moves \<^verbatim>\<open>j\<close> to the first \<^verbatim>\<open>]\<close> after the bracket: \<open>takeWhile\<close> is the slice
  \<^verbatim>\<open>regex[i+1:j]\<close>, \<open>dropWhile\<close> the pattern from \<^verbatim>\<open>j\<close> on, empty exactly when
  \<^verbatim>\<open>j == len(regex)\<close>. The three-way unpacking is only reached when the content has
  three characters.
\<close>

function expand_loop :: "ustring \<Rightarrow> ustring \<Rightarrow> error + ustring" where
  "expand_loop [] expanded = Inr expanded"
| "expand_loop (c # rest) expanded =
     (if c = LBRACKET then
        (case dropWhile (\<lambda>d. d \<noteq> RBRACKET) rest of
           [] \<Rightarrow> Inl (ValueError ''Unmatched [ in regex'')
         | _ # after \<Rightarrow>
             (let content = takeWhile (\<lambda>d. d \<noteq> RBRACKET) rest in
              if MINUS \<in> set content \<and> length content = 3 then
                (let start = content ! 0; dash = content ! 1; endc = content ! 2 in
                 if dash \<noteq> MINUS then Inl (ValueError ''Invalid character class'')
                 else expand_loop after
                        (expanded @ [LPAREN] @ join [BAR] (class_chars start endc) @ [RPAREN]))
              else Inl (ValueError ''Only simple ranges like [a-z] supported'')))
      else expand_loop rest (expanded @ [c]))"
  by pat_completeness auto
termination
proof (relation "measure (\<lambda>(regex, expanded). length regex)", goal_cases)
  case 1
  show ?case by simp
next
  case (2 c rest expanded x21 after)
  have "length (dropWhile (\<lambda>d. d \<noteq> RBRACKET) rest) \<le> length rest"
    by (rule length_dropWhile_le)
  with 2 show ?case by simp
next
  case 3
  then show ?case by simp
qed

definition expand_character_classes :: "ustring \<Rightarrow> error + ustring" where
  "expand_character_classes regex = expand_loop regex []"

section \<open>Infix to postfix\<close>

text \<open>
  First pass: the loop over the indices of the pattern, which appends each character and,
  when a next character exists, the explicit concatenation operator under the source's
  condition.
\<close>

fun explicit_concat :: "ustring \<Rightarrow> ustring" where
  "explicit_concat [] = []"
| "explicit_concat [c] = [c]"
| "explicit_concat (c # nxt # rest) =
     c # (if c \<notin> set [LPAREN, BAR] \<and> nxt \<notin> set [RPAREN, BAR, STAR, PLUS, QMARK]
          then [DOT] else [])
       @ explicit_concat (nxt # rest)"

definition precedence :: "uchar \<rightharpoonup> nat" where
  "precedence = [STAR \<mapsto> 3, PLUS \<mapsto> 3, QMARK \<mapsto> 3, DOT \<mapsto> 2, BAR \<mapsto> 1, LPAREN \<mapsto> 0]"

text \<open>
  The operator stack is a list whose head is the top of the Python list (its last
  element). \<^verbatim>\<open>while stack and stack[-1] != '(': output.append(stack.pop())\<close>:
\<close>

fun pop_to_paren :: "ustring \<Rightarrow> ustring \<Rightarrow> ustring \<times> ustring" where
  "pop_to_paren output [] = (output, [])"
| "pop_to_paren output (t # stack) =
     (if t \<noteq> LPAREN then pop_to_paren (output @ [t]) stack else (output, t # stack))"

text \<open>
  \<^verbatim>\<open>while stack and precedence[stack[-1]] >= precedence[char]: output.append(stack.pop())\<close>;
  a lookup of a missing key raises.
\<close>

fun pop_by_precedence :: "uchar \<Rightarrow> ustring \<Rightarrow> ustring \<Rightarrow> error + ustring \<times> ustring" where
  "pop_by_precedence ch output [] = Inr (output, [])"
| "pop_by_precedence ch output (t # stack) =
     (case precedence t of
        None \<Rightarrow> Inl KeyError
      | Some p \<Rightarrow>
          (case precedence ch of
             None \<Rightarrow> Inl KeyError
           | Some q \<Rightarrow>
               if p \<ge> q then pop_by_precedence ch (output @ [t]) stack
               else Inr (output, t # stack)))"

text \<open>The second pass, \<^verbatim>\<open>for char in regex\<close>, on the pair of output and operator stack.\<close>

fun shunt :: "ustring \<Rightarrow> ustring \<times> ustring \<Rightarrow> error + ustring \<times> ustring" where
  "shunt [] (output, stack) = Inr (output, stack)"
| "shunt (ch # rest) (output, stack) =
     (if ch = LPAREN then shunt rest (output, ch # stack)
      else if ch = RPAREN then
        (case pop_to_paren output stack of
           (output', []) \<Rightarrow> Inl IndexError
         | (output', _ # stack') \<Rightarrow> shunt rest (output', stack'))
      else if precedence ch \<noteq> None then
        (case pop_by_precedence ch output stack of
           Inl e \<Rightarrow> Inl e
         | Inr (output', stack') \<Rightarrow> shunt rest (output', ch # stack'))
      else shunt rest (output @ [ch], stack))"

text \<open>The final \<^verbatim>\<open>while stack: output.append(stack.pop())\<close>.\<close>

fun pop_all :: "ustring \<Rightarrow> ustring \<Rightarrow> ustring" where
  "pop_all output [] = output"
| "pop_all output (t # stack) = pop_all (output @ [t]) stack"

definition infix_to_postfix :: "ustring \<Rightarrow> error + ustring" where
  "infix_to_postfix regex =
     (case shunt (explicit_concat regex) ([], []) of
        Inl e \<Rightarrow> Inl e
      | Inr (output, stack) \<Rightarrow> Inr (pop_all output stack))"

section \<open>The automaton and Thompson's construction\<close>

type_synonym state = nat
type_synonym trans_map = "state \<rightharpoonup> (uchar \<rightharpoonup> state set)"

record NFA =
  start_state :: state
  accept_state :: state
  transitions :: trans_map

definition add_transition :: "trans_map \<Rightarrow> state \<Rightarrow> uchar \<Rightarrow> state \<Rightarrow> trans_map" where
  "add_transition tr from_state symbol to_state =
     (let inner = (case tr from_state of None \<Rightarrow> Map.empty | Some m \<Rightarrow> m);
          dests = (case inner symbol of None \<Rightarrow> {} | Some d \<Rightarrow> d)
      in tr(from_state \<mapsto> inner(symbol \<mapsto> insert to_state dests)))"

text \<open>
  The loop that copies the second operand's transitions into the new fragment:
  for every state of \<open>tr2\<close> the inner dictionary of \<open>tr\<close> is created when missing and
  then every symbol's entry is assigned (overwritten when present) a copy of the
  destination set.
\<close>

definition merge_transitions :: "trans_map \<Rightarrow> trans_map \<Rightarrow> trans_map" where
  "merge_transitions tr tr2 =
     (\<lambda>state. case tr2 state of
                None \<Rightarrow> tr state
              | Some transitions2 \<Rightarrow>
                  Some ((case tr state of None \<Rightarrow> Map.empty | Some m \<Rightarrow> m) ++ transitions2))"

text \<open>The counter \<^verbatim>\<open>next_state_id\<close>: the state issued and the counter afterwards.\<close>

definition new_state :: "nat \<Rightarrow> state \<times> nat" where
  "new_state next_state_id = (next_state_id, next_state_id + 1)"

definition literal_nfa :: "uchar \<Rightarrow> state \<Rightarrow> state \<Rightarrow> NFA" where
  "literal_nfa ch start accept =
     \<lparr>start_state = start, accept_state = accept,
      transitions = add_transition Map.empty start ch accept\<rparr>"

definition star_nfa :: "NFA \<Rightarrow> state \<Rightarrow> state \<Rightarrow> NFA" where
  "star_nfa nfa1 start accept =
     (let t0 = transitions nfa1;
          t1 = add_transition t0 start EPSILON (start_state nfa1);
          t2 = add_transition t1 (accept_state nfa1) EPSILON (start_state nfa1);
          t3 = add_transition t2 start EPSILON accept;
          t4 = add_transition t3 (accept_state nfa1) EPSILON accept
      in \<lparr>start_state = start, accept_state = accept, transitions = t4\<rparr>)"

definition plus_nfa :: "NFA \<Rightarrow> state \<Rightarrow> state \<Rightarrow> NFA" where
  "plus_nfa nfa1 start accept =
     (let t0 = transitions nfa1;
          t1 = add_transition t0 start EPSILON (start_state nfa1);
          t2 = add_transition t1 (accept_state nfa1) EPSILON (start_state nfa1);
          t3 = add_transition t2 (accept_state nfa1) EPSILON accept
      in \<lparr>start_state = start, accept_state = accept, transitions = t3\<rparr>)"

definition optional_nfa :: "NFA \<Rightarrow> state \<Rightarrow> state \<Rightarrow> NFA" where
  "optional_nfa nfa1 start accept =
     (let t0 = transitions nfa1;
          t1 = add_transition t0 start EPSILON (start_state nfa1);
          t2 = add_transition t1 (accept_state nfa1) EPSILON accept;
          t3 = add_transition t2 start EPSILON accept
      in \<lparr>start_state = start, accept_state = accept, transitions = t3\<rparr>)"

definition concat_nfa :: "NFA \<Rightarrow> NFA \<Rightarrow> NFA" where
  "concat_nfa nfa1 nfa2 =
     (let t0 = merge_transitions (transitions nfa1) (transitions nfa2);
          t1 = add_transition t0 (accept_state nfa1) EPSILON (start_state nfa2)
      in \<lparr>start_state = start_state nfa1, accept_state = accept_state nfa2, transitions = t1\<rparr>)"

definition alternate_nfa :: "NFA \<Rightarrow> NFA \<Rightarrow> state \<Rightarrow> state \<Rightarrow> NFA" where
  "alternate_nfa nfa1 nfa2 start accept =
     (let t0 = merge_transitions (transitions nfa1) (transitions nfa2);
          t1 = add_transition t0 start EPSILON (start_state nfa1);
          t2 = add_transition t1 start EPSILON (start_state nfa2);
          t3 = add_transition t2 (accept_state nfa1) EPSILON accept;
          t4 = add_transition t3 (accept_state nfa2) EPSILON accept
      in \<lparr>start_state = start, accept_state = accept, transitions = t4\<rparr>)"

text \<open>
  One iteration of \<^verbatim>\<open>for char in postfix\<close>, on the pair of the counter and the operand
  stack (head = top). A \<^verbatim>\<open>pop\<close> from the empty stack raises \<^verbatim>\<open>IndexError\<close>. The
  operands popped are dropped after the iteration, so the inner dictionaries the new
  fragment shares with them are reachable from the new fragment only and the fragments
  are modelled as values.
\<close>

fun step :: "uchar \<Rightarrow> nat \<times> NFA list \<Rightarrow> error + nat \<times> NFA list" where
  "step ch (next_id, stack) =
     (if ch \<notin> set [STAR, PLUS, QMARK, DOT, BAR] then
        (let (start, id1) = new_state next_id;
             (accept, id2) = new_state id1
         in Inr (id2, literal_nfa ch start accept # stack))
      else if ch = STAR then
        (case stack of
           [] \<Rightarrow> Inl IndexError
         | nfa1 # stack1 \<Rightarrow>
             (let (start, id1) = new_state next_id;
                  (accept, id2) = new_state id1
              in Inr (id2, star_nfa nfa1 start accept # stack1)))
      else if ch = PLUS then
        (case stack of
           [] \<Rightarrow> Inl IndexError
         | nfa1 # stack1 \<Rightarrow>
             (let (start, id1) = new_state next_id;
                  (accept, id2) = new_state id1
              in Inr (id2, plus_nfa nfa1 start accept # stack1)))
      else if ch = QMARK then
        (case stack of
           [] \<Rightarrow> Inl IndexError
         | nfa1 # stack1 \<Rightarrow>
             (let (start, id1) = new_state next_id;
                  (accept, id2) = new_state id1
              in Inr (id2, optional_nfa nfa1 start accept # stack1)))
      else if ch = DOT then
        (case stack of
           [] \<Rightarrow> Inl IndexError
         | nfa2 # stack1 \<Rightarrow>
             (case stack1 of
                [] \<Rightarrow> Inl IndexError
              | nfa1 # stack2 \<Rightarrow> Inr (next_id, concat_nfa nfa1 nfa2 # stack2)))
      else
        (case stack of
           [] \<Rightarrow> Inl IndexError
         | nfa2 # stack1 \<Rightarrow>
             (case stack1 of
                [] \<Rightarrow> Inl IndexError
              | nfa1 # stack2 \<Rightarrow>
                  (let (start, id1) = new_state next_id;
                       (accept, id2) = new_state id1
                   in Inr (id2, alternate_nfa nfa1 nfa2 start accept # stack2)))))"

fun run :: "ustring \<Rightarrow> nat \<times> NFA list \<Rightarrow> error + nat \<times> NFA list" where
  "run [] st = Inr st"
| "run (ch # rest) st = (case step ch st of Inl e \<Rightarrow> Inl e | Inr st' \<Rightarrow> run rest st')"

text \<open>The counter starts at 0 with an empty stack; the result is \<^verbatim>\<open>stack.pop()\<close>.\<close>

definition postfix_to_nfa :: "ustring \<Rightarrow> error + NFA" where
  "postfix_to_nfa postfix =
     (case run postfix (0, []) of
        Inl e \<Rightarrow> Inl e
      | Inr (next_id, stack) \<Rightarrow>
          (case stack of [] \<Rightarrow> Inl IndexError | nfa # _ \<Rightarrow> Inr nfa))"

definition regex_to_nfa :: "ustring \<Rightarrow> error + NFA" where
  "regex_to_nfa regex =
     (case expand_character_classes regex of
        Inl e \<Rightarrow> Inl e
      | Inr expanded \<Rightarrow>
          (case infix_to_postfix expanded of
             Inl e \<Rightarrow> Inl e
           | Inr postfix \<Rightarrow> postfix_to_nfa postfix))"

text \<open>
  The edges of a transition map, as \<^verbatim>\<open>to_graphviz\<close> and the textual listing enumerate
  them (from-state, symbol, to-state), and the set \<^verbatim>\<open>all_states\<close> that
  \<^verbatim>\<open>to_graphviz\<close> collects: the keys, every destination and the accept state.
\<close>

definition edges :: "trans_map \<Rightarrow> (state \<times> uchar \<times> state) set" where
  "edges tr = {(f, sym, t). \<exists>m d. tr f = Some m \<and> m sym = Some d \<and> t \<in> d}"

definition tr_states :: "trans_map \<Rightarrow> state set" where
  "tr_states tr = dom tr \<union> {t. \<exists>f sym. (f, sym, t) \<in> edges tr}"

definition all_states :: "NFA \<Rightarrow> state set" where
  "all_states nfa = tr_states (transitions nfa) \<union> {accept_state nfa}"

text \<open>
  The states of a fragment: those \<^verbatim>\<open>to_graphviz\<close> collects, together with the start
  state.
\<close>

definition fragment_states :: "NFA \<Rightarrow> state set" where
  "fragment_states nfa = insert (start_state nfa) (all_states nfa)"

text \<open>
  The number of \<^verbatim>\<open>stack.pop()\<close> calls in the branch of the evaluator that handles a
  token: two for \<^verbatim>\<open>.\<close> and \<^verbatim>\<open>|\<close>, one for the three quantifiers, none for a literal.
\<close>

definition operands_required :: "uchar \<Rightarrow> nat" where
  "operands_required ch =
     (if ch \<in> set [DOT, BAR] then 2 else if ch \<in> set [STAR, PLUS, QMARK] then 1 else 0)"

text \<open>
  The invariant of the evaluator's loop: every state of a fragment on the stack was
  issued by the counter, and no two fragments on the stack share a state.
\<close>

fun disjoint_stack :: "NFA list \<Rightarrow> bool" where
  "disjoint_stack [] = True"
| "disjoint_stack (nfa # stack) =
     ((\<forall>other \<in> set stack. fragment_states nfa \<inter> fragment_states other = {})
      \<and> disjoint_stack stack)"

definition stack_inv :: "nat \<times> NFA list \<Rightarrow> bool" where
  "stack_inv st = (case st of (next_id, stack) \<Rightarrow>
     (\<forall>nfa \<in> set stack. fragment_states nfa \<subseteq> {..<next_id}) \<and> disjoint_stack stack)"

text \<open>
  Every entry (state, symbol) of the first map is an entry of the second, with at least
  the same destinations: no entry was dropped or replaced.
\<close>

definition keeps_entries :: "trans_map \<Rightarrow> trans_map \<Rightarrow> bool" where
  "keeps_entries old new =
     (\<forall>s m sym d. old s = Some m \<and> m sym = Some d
        \<longrightarrow> (\<exists>m' d'. new s = Some m' \<and> m' sym = Some d' \<and> d \<subseteq> d'))"

section \<open>Postfix order: the reference for the conversion\<close>

text \<open>
  What "postfix order" means is fixed here from the words of the specification (its
  section 4.2), not from the code, so that the conversion can be compared with it.
  An expression is a literal, a parenthesised group, a quantifier (\<^verbatim>\<open>*\<close>, \<^verbatim>\<open>+\<close> or
  \<^verbatim>\<open>?\<close>) after its operand, a concatenation or an alternation. \<open>level\<close> is how
  tightly the top of an expression binds: alternation 1, concatenation 2, quantifiers
  3, literals and groups above them. \<open>well_formed\<close> says that the tree is the one the
  pattern denotes under these precedences, the binary operators associating to the
  left: a quantifier's operand binds at least as tightly as a quantifier, the left
  operand of a binary operator at least as tightly as the operator and its right
  operand strictly tighter, and a literal is no operator or parenthesis. \<open>pattern_of\<close>
  is the pattern as it is written, \<open>explicit_of\<close> the same with the concatenation
  operator written out, and \<open>postfix_of\<close> the postfix form: the operands in order,
  then the operator.
\<close>

datatype rexp = Lit uchar | Group rexp | Quant uchar rexp | Cat rexp rexp | Alt rexp rexp

fun level :: "rexp \<Rightarrow> nat" where
  "level (Lit c) = 4"
| "level (Group r) = 4"
| "level (Quant q r) = 3"
| "level (Cat r s) = 2"
| "level (Alt r s) = 1"

fun well_formed :: "rexp \<Rightarrow> bool" where
  "well_formed (Lit c) = (c \<notin> set [LPAREN, RPAREN, STAR, PLUS, QMARK, DOT, BAR])"
| "well_formed (Group r) = well_formed r"
| "well_formed (Quant q r) = (q \<in> set [STAR, PLUS, QMARK] \<and> 3 \<le> level r \<and> well_formed r)"
| "well_formed (Cat r s) = (2 \<le> level r \<and> 3 \<le> level s \<and> well_formed r \<and> well_formed s)"
| "well_formed (Alt r s) = (2 \<le> level s \<and> well_formed r \<and> well_formed s)"

fun pattern_of :: "rexp \<Rightarrow> ustring" where
  "pattern_of (Lit c) = [c]"
| "pattern_of (Group r) = [LPAREN] @ pattern_of r @ [RPAREN]"
| "pattern_of (Quant q r) = pattern_of r @ [q]"
| "pattern_of (Cat r s) = pattern_of r @ pattern_of s"
| "pattern_of (Alt r s) = pattern_of r @ [BAR] @ pattern_of s"

fun explicit_of :: "rexp \<Rightarrow> ustring" where
  "explicit_of (Lit c) = [c]"
| "explicit_of (Group r) = [LPAREN] @ explicit_of r @ [RPAREN]"
| "explicit_of (Quant q r) = explicit_of r @ [q]"
| "explicit_of (Cat r s) = explicit_of r @ [DOT] @ explicit_of s"
| "explicit_of (Alt r s) = explicit_of r @ [BAR] @ explicit_of s"

fun postfix_of :: "rexp \<Rightarrow> ustring" where
  "postfix_of (Lit c) = [c]"
| "postfix_of (Group r) = postfix_of r"
| "postfix_of (Quant q r) = postfix_of r @ [q]"
| "postfix_of (Cat r s) = postfix_of r @ postfix_of s @ [DOT]"
| "postfix_of (Alt r s) = postfix_of r @ postfix_of s @ [BAR]"

text \<open>
  The top of the operator stack, when there is one, is an operator of precedence
  below \<open>p\<close>.
\<close>

definition top_below :: "nat \<Rightarrow> ustring \<Rightarrow> bool" where
  "top_below p stk =
     (case stk of [] \<Rightarrow> True
      | t # _ \<Rightarrow> (case precedence t of None \<Rightarrow> False | Some k \<Rightarrow> k < p))"

section \<open>Transition maps: edges, keys and states\<close>

lemma edges_empty: "edges Map.empty = {}"
  by (simp add: edges_def)

lemma edges_add_transition:
  "edges (add_transition tr f s t) = insert (f, s, t) (edges tr)"
  unfolding edges_def add_transition_def Let_def
  by (auto split: option.splits if_splits)

lemma dom_add_transition: "dom (add_transition tr f s t) = insert f (dom tr)"
  by (simp add: add_transition_def Let_def)

lemma tr_states_add_transition:
  "tr_states (add_transition tr f s t) = insert f (insert t (tr_states tr))"
  unfolding tr_states_def by (auto simp: edges_add_transition dom_add_transition)

lemma dom_merge_transitions:
  "dom (merge_transitions tr tr2) = dom tr \<union> dom tr2"
  by (auto simp: merge_transitions_def dom_def split: option.splits)

lemma edges_merge_subset:
  "edges (merge_transitions tr tr2) \<subseteq> edges tr \<union> edges tr2"
  unfolding edges_def merge_transitions_def
  by (auto split: option.splits simp: map_add_Some_iff)

lemma edges_merge_disjoint:
  assumes "dom tr \<inter> dom tr2 = {}"
  shows "edges (merge_transitions tr tr2) = edges tr \<union> edges tr2"
proof -
  have none: "tr2 a = None" if "tr a = Some m" for a m
    using assms that by (cases "tr2 a") auto
  have m: "merge_transitions tr tr2 = tr ++ tr2"
  proof
    fix s
    show "merge_transitions tr tr2 s = (tr ++ tr2) s"
      using none [of s] by (cases "tr s"; cases "tr2 s") (auto simp: merge_transitions_def map_add_def)
  qed
  show ?thesis
    unfolding m edges_def using none
    by (auto simp: map_add_Some_iff)
qed

lemma tr_states_merge_subset:
  "tr_states (merge_transitions tr tr2) \<subseteq> tr_states tr \<union> tr_states tr2"
proof -
  have e: "(f, s, t) \<in> edges tr \<or> (f, s, t) \<in> edges tr2"
    if "(f, s, t) \<in> edges (merge_transitions tr tr2)" for f s t
    using edges_merge_subset [of tr tr2] that by blast
  show ?thesis
    unfolding tr_states_def using e by (auto simp: dom_merge_transitions) blast
qed


lemma tr_states_empty: "tr_states Map.empty = {}"
  by (simp add: tr_states_def edges_empty)

section \<open>The invariant of the operand stack\<close>

lemma fragment_states_literal:
  "fragment_states (literal_nfa ch s a) = {s, a}"
  by (auto simp: fragment_states_def all_states_def literal_nfa_def tr_states_add_transition
      tr_states_empty)

lemma fragment_states_star:
  "fragment_states (star_nfa nfa1 s a) = {s, a} \<union> fragment_states nfa1"
  by (auto simp: fragment_states_def all_states_def star_nfa_def Let_def tr_states_add_transition)

lemma fragment_states_plus:
  "fragment_states (plus_nfa nfa1 s a) = {s, a} \<union> fragment_states nfa1"
  by (auto simp: fragment_states_def all_states_def plus_nfa_def Let_def tr_states_add_transition)

lemma fragment_states_optional:
  "fragment_states (optional_nfa nfa1 s a) = {s, a} \<union> fragment_states nfa1"
  by (auto simp: fragment_states_def all_states_def optional_nfa_def Let_def tr_states_add_transition)

lemma fragment_states_concat:
  "fragment_states (concat_nfa nfa1 nfa2) \<subseteq> fragment_states nfa1 \<union> fragment_states nfa2"
  using tr_states_merge_subset [of "transitions nfa1" "transitions nfa2"]
  by (auto simp: fragment_states_def all_states_def concat_nfa_def Let_def tr_states_add_transition)

lemma fragment_states_alternate:
  "fragment_states (alternate_nfa nfa1 nfa2 s a)
     \<subseteq> {s, a} \<union> fragment_states nfa1 \<union> fragment_states nfa2"
  using tr_states_merge_subset [of "transitions nfa1" "transitions nfa2"]
  by (auto simp: fragment_states_def all_states_def alternate_nfa_def Let_def tr_states_add_transition)

lemma stack_inv_push_fresh:
  assumes "stack_inv (n, stack)" and "fragment_states nfa \<subseteq> {n, Suc n}"
  shows "stack_inv (Suc (Suc n), nfa # stack)"
  using assms unfolding stack_inv_def by (fastforce simp: less_Suc_eq)

lemma stack_inv_unary:
  assumes "stack_inv (n, nfa1 # stack)"
    and "fragment_states nfa \<subseteq> {n, Suc n} \<union> fragment_states nfa1"
  shows "stack_inv (Suc (Suc n), nfa # stack)"
  using assms unfolding stack_inv_def by (fastforce simp: less_Suc_eq)

lemma stack_inv_binary:
  assumes "stack_inv (n, nfa2 # nfa1 # stack)"
    and "fragment_states nfa \<subseteq> {n, Suc n} \<union> fragment_states nfa1 \<union> fragment_states nfa2"
  shows "stack_inv (Suc (Suc n), nfa # stack)"
  using assms unfolding stack_inv_def by (fastforce simp: less_Suc_eq)

lemma stack_inv_concat:
  assumes "stack_inv (n, nfa2 # nfa1 # stack)"
    and "fragment_states nfa \<subseteq> fragment_states nfa1 \<union> fragment_states nfa2"
  shows "stack_inv (n, nfa # stack)"
  using assms unfolding stack_inv_def by fastforce

lemma step_stack_inv:
  assumes "stack_inv (n, stack)" and "step ch (n, stack) = Inr st'"
  shows "stack_inv st'"
proof -
  consider (lit) "ch \<notin> set [STAR, PLUS, QMARK, DOT, BAR]"
    | (star) "ch = STAR" | (plus) "ch = PLUS" | (opt) "ch = QMARK"
    | (dot) "ch = DOT" | (bar) "ch = BAR"
    by auto
  then show ?thesis
  proof cases
    case lit
    then have "st' = (Suc (Suc n), literal_nfa ch n (Suc n) # stack)"
      using assms(2) by (simp add: new_state_def)
    then show ?thesis
      using stack_inv_push_fresh [OF assms(1), of "literal_nfa ch n (Suc n)"]
      by (simp add: fragment_states_literal)
  next
    case star
    then obtain nfa1 rest where s: "stack = nfa1 # rest"
      and r: "st' = (Suc (Suc n), star_nfa nfa1 n (Suc n) # rest)"
      using assms(2) by (cases stack) (auto simp: new_state_def)
    show ?thesis unfolding r
      by (rule stack_inv_unary [OF assms(1) [unfolded s]]) (simp add: fragment_states_star)
  next
    case plus
    then obtain nfa1 rest where s: "stack = nfa1 # rest"
      and r: "st' = (Suc (Suc n), plus_nfa nfa1 n (Suc n) # rest)"
      using assms(2) by (cases stack) (auto simp: new_state_def)
    show ?thesis unfolding r
      by (rule stack_inv_unary [OF assms(1) [unfolded s]]) (simp add: fragment_states_plus)
  next
    case opt
    then obtain nfa1 rest where s: "stack = nfa1 # rest"
      and r: "st' = (Suc (Suc n), optional_nfa nfa1 n (Suc n) # rest)"
      using assms(2) by (cases stack) (auto simp: new_state_def)
    show ?thesis unfolding r
      by (rule stack_inv_unary [OF assms(1) [unfolded s]]) (simp add: fragment_states_optional)
  next
    case dot
    then obtain nfa2 nfa1 rest where s: "stack = nfa2 # nfa1 # rest"
      and r: "st' = (n, concat_nfa nfa1 nfa2 # rest)"
      using assms(2) by (cases stack; cases "tl stack") (auto simp: new_state_def)
    show ?thesis unfolding r
      by (rule stack_inv_concat [OF assms(1) [unfolded s]]) (rule fragment_states_concat)
  next
    case bar
    then obtain nfa2 nfa1 rest where s: "stack = nfa2 # nfa1 # rest"
      and r: "st' = (Suc (Suc n), alternate_nfa nfa1 nfa2 n (Suc n) # rest)"
      using assms(2) by (cases stack; cases "tl stack") (auto simp: new_state_def)
    show ?thesis unfolding r
      using fragment_states_alternate [of nfa1 nfa2 n "Suc n"]
      by (intro stack_inv_binary [OF assms(1) [unfolded s]]) auto
  qed
qed

lemma run_stack_inv:
  "stack_inv st \<Longrightarrow> run cs st = Inr st' \<Longrightarrow> stack_inv st'"
proof (induction cs arbitrary: st)
  case Nil
  then show ?case by simp
next
  case (Cons ch cs)
  obtain n stack where st: "st = (n, stack)" by (cases st)
  from Cons.prems(2) obtain st1 where s1: "step ch (n, stack) = Inr st1" and r: "run cs st1 = Inr st'"
    unfolding st by (auto split: sum.splits)
  from step_stack_inv [OF Cons.prems(1) [unfolded st] s1] have "stack_inv st1" .
  from Cons.IH [OF this r] show ?case .
qed

lemma stack_inv_initial: "stack_inv (0, [])"
  by (simp add: stack_inv_def)

section \<open>The shunting pass and parentheses\<close>

lemma pop_all_eq: "pop_all out stack = out @ stack"
  by (induction stack arbitrary: out) auto

lemma dom_precedence: "dom precedence = {STAR, PLUS, QMARK, DOT, BAR, LPAREN}"
  by (auto simp: precedence_def split: if_splits)

lemma pop_to_paren_eq:
  "pop_to_paren out stack =
     (out @ takeWhile (\<lambda>t. t \<noteq> LPAREN) stack, dropWhile (\<lambda>t. t \<noteq> LPAREN) stack)"
  by (induction stack arbitrary: out) auto

lemma pop_to_paren_found:
  assumes "LPAREN \<in> set stack"
  obtains ops rest where "pop_to_paren out stack = (out @ ops, LPAREN # rest)"
    and "stack = ops @ LPAREN # rest" and "LPAREN \<notin> set ops"
proof -
  let ?ops = "takeWhile (\<lambda>t. t \<noteq> LPAREN) stack"
  let ?rest = "dropWhile (\<lambda>t. t \<noteq> LPAREN) stack"
  from assms have ne: "?rest \<noteq> []" by auto
  then have hd: "hd ?rest = LPAREN" using hd_dropWhile [of "\<lambda>t. t \<noteq> LPAREN" stack] by simp
  from ne hd obtain rest where r: "?rest = LPAREN # rest" by (cases ?rest) auto
  have "stack = ?ops @ ?rest" by simp
  then have s: "stack = ?ops @ LPAREN # rest" unfolding r .
  have n: "LPAREN \<notin> set ?ops" by (auto dest: set_takeWhileD)
  show thesis
    by (rule that [of ?ops rest]) (simp_all only: pop_to_paren_eq r s [symmetric] n not_False_eq_True)
qed

lemma pop_by_precedence_ok:
  assumes "set stack \<subseteq> dom precedence" and "ch \<in> {STAR, PLUS, QMARK, DOT, BAR}"
  shows "\<exists>ops rest. pop_by_precedence ch out stack = Inr (out @ ops, rest)
           \<and> stack = ops @ rest \<and> LPAREN \<notin> set ops"
  using assms
proof (induction stack arbitrary: out)
  case Nil
  then show ?case by simp
next
  case (Cons t stack)
  from Cons.prems(1) have t: "t \<in> {STAR, PLUS, QMARK, DOT, BAR, LPAREN}"
    and sub: "set stack \<subseteq> dom precedence"
    by (auto simp: dom_precedence)
  obtain p where p: "precedence t = Some p" using t by (auto simp: precedence_def)
  obtain q where q: "precedence ch = Some q" and q0: "0 < q"
    using Cons.prems(2) by (auto simp: precedence_def)
  show ?case
  proof (cases "q \<le> p")
    case True
    then have tl: "t \<noteq> LPAREN" using p q0 by (auto simp: precedence_def)
    from Cons.IH [OF sub Cons.prems(2), of "out @ [t]"] obtain ops rest where
      "pop_by_precedence ch (out @ [t]) stack = Inr ((out @ [t]) @ ops, rest)"
      "stack = ops @ rest" "LPAREN \<notin> set ops" by blast
    then show ?thesis using True p q tl
      by (intro exI [of _ "t # ops"] exI [of _ rest]) simp
  next
    case False
    then show ?thesis using p q
      by (intro exI [of _ "[]"] exI [of _ "t # stack"]) simp
  qed
qed

lemma shunt_one:
  assumes "set stk \<subseteq> dom precedence" and "LPAREN \<notin> set out"
    and "c = RPAREN \<Longrightarrow> LPAREN \<in> set stk"
  shows "\<exists>out' stk'. (\<forall>rest. shunt (c # rest) (out, stk) = shunt rest (out', stk'))
           \<and> set stk' \<subseteq> dom precedence \<and> LPAREN \<notin> set out'
           \<and> count_list stk' LPAREN =
               (if c = LPAREN then Suc (count_list stk LPAREN)
                else if c = RPAREN then count_list stk LPAREN - 1
                else count_list stk LPAREN)"
proof -
  consider (lparen) "c = LPAREN" | (close) "c = RPAREN"
    | (oper) "c \<in> {STAR, PLUS, QMARK, DOT, BAR}" | (lit) "c \<notin> dom precedence" "c \<noteq> RPAREN"
    by (auto simp: dom_precedence)
  then show ?thesis
  proof cases
    case lparen
    then show ?thesis using assms
      by (intro exI [of _ out] exI [of _ "c # stk"]) (simp add: dom_precedence)
  next
    case close
    from pop_to_paren_found [OF assms(3) [OF close], of out] obtain ops rest where
      p: "pop_to_paren out stk = (out @ ops, LPAREN # rest)"
      and s: "stk = ops @ LPAREN # rest" and n: "LPAREN \<notin> set ops" by blast
    have "set rest \<subseteq> dom precedence" using assms(1) s by auto
    moreover have "set ops \<subseteq> dom precedence" using assms(1) s by auto
    moreover have "count_list stk LPAREN = Suc (count_list rest LPAREN)"
      using n by (simp add: s count_list_0_iff)
    ultimately show ?thesis using close p n assms(2)
      by (intro exI [of _ "out @ ops"] exI [of _ rest]) simp
  next
    case oper
    from pop_by_precedence_ok [OF assms(1) oper, of out] obtain ops rest where
      p: "pop_by_precedence c out stk = Inr (out @ ops, rest)"
      and s: "stk = ops @ rest" and n: "LPAREN \<notin> set ops" by blast
    have "set rest \<subseteq> dom precedence" using assms(1) s by auto
    moreover have "c \<in> dom precedence" using oper by (auto simp: dom_precedence)
    moreover have "count_list stk LPAREN = count_list rest LPAREN"
      using n by (simp add: s count_list_0_iff)
    moreover have "c \<noteq> LPAREN" "c \<noteq> RPAREN" "precedence c \<noteq> None"
      using oper by (auto simp: precedence_def)
    ultimately show ?thesis using p n assms(2)
      by (intro exI [of _ "out @ ops"] exI [of _ "c # rest"]) simp
  next
    case lit
    from lit(1) have "precedence c = None" by (simp only: domIff not_not)
    moreover from lit(1) have "c \<noteq> LPAREN" by (auto simp: dom_precedence)
    ultimately have "c \<noteq> LPAREN" "precedence c = None" by blast+
    then show ?thesis using lit assms
      by (intro exI [of _ "out @ [c]"] exI [of _ stk]) simp
  qed
qed


lemma count_list_pos: "Suc 0 \<le> count_list xs x \<Longrightarrow> x \<in> set xs"
  by (cases "x \<in> set xs") (simp_all add: count_list_0_iff)

lemma explicit_concat_parens_ok:
  assumes "set stk \<subseteq> dom precedence" and "LPAREN \<notin> set out"
    and "\<forall>k\<le>length regex. count_list (take k regex) RPAREN
            \<le> count_list stk LPAREN + count_list (take k regex) LPAREN"
  shows "\<exists>out' stk'. shunt (explicit_concat regex) (out, stk) = Inr (out', stk')
           \<and> LPAREN \<notin> set out'
           \<and> count_list stk' LPAREN + count_list regex RPAREN
               = count_list stk LPAREN + count_list regex LPAREN"
  using assms
proof (induction regex arbitrary: out stk rule: explicit_concat.induct)
  case 1
  then show ?case by simp
next
  case (2 c)
  let ?d = "count_list stk LPAREN"
  from "2.prems"(3) have "count_list (take 1 [c]) RPAREN
      \<le> ?d + count_list (take 1 [c]) LPAREN"
    by (metis One_nat_def le_refl length_Cons list.size(3))
  then have d1: "c = RPAREN \<Longrightarrow> Suc 0 \<le> ?d" by simp
  then have cl: "c = RPAREN \<Longrightarrow> LPAREN \<in> set stk" by (rule count_list_pos)
  from shunt_one [OF "2.prems"(1,2) cl] obtain out1 stk1 where
    s1: "\<And>r. shunt (c # r) (out, stk) = shunt r (out1, stk1)"
    and b1: "LPAREN \<notin> set out1"
    and c1: "count_list stk1 LPAREN =
               (if c = LPAREN then Suc ?d else if c = RPAREN then ?d - 1 else ?d)" by blast
  have "shunt (explicit_concat [c]) (out, stk) = Inr (out1, stk1)"
    by (simp only: explicit_concat.simps s1 shunt.simps(1))
  moreover have "count_list stk1 LPAREN + count_list [c] RPAREN = ?d + count_list [c] LPAREN"
    using c1 d1 by auto
  ultimately show ?case using b1 by blast
next
  case (3 c nxt rest)
  let ?d = "count_list stk LPAREN"
  from "3.prems"(3) have "count_list (take 1 (c # nxt # rest)) RPAREN
      \<le> ?d + count_list (take 1 (c # nxt # rest)) LPAREN"
    by (metis One_nat_def Suc_le_mono le0 length_Cons)
  then have d1: "c = RPAREN \<Longrightarrow> Suc 0 \<le> ?d" by simp
  then have cl: "c = RPAREN \<Longrightarrow> LPAREN \<in> set stk" by (rule count_list_pos)
  from shunt_one [OF "3.prems"(1,2) cl] obtain out1 stk1 where
    s1: "\<And>r. shunt (c # r) (out, stk) = shunt r (out1, stk1)"
    and a1: "set stk1 \<subseteq> dom precedence" and b1: "LPAREN \<notin> set out1"
    and c1: "count_list stk1 LPAREN =
               (if c = LPAREN then Suc ?d else if c = RPAREN then ?d - 1 else ?d)" by blast
  from shunt_one [OF a1 b1, of DOT] obtain out2 stk2 where
    s2: "\<And>r. shunt (DOT # r) (out1, stk1) = shunt r (out2, stk2)"
    and a2: "set stk2 \<subseteq> dom precedence" and b2: "LPAREN \<notin> set out2"
    and c2: "count_list stk2 LPAREN = count_list stk1 LPAREN" by auto
  have pre: "\<forall>k\<le>length (nxt # rest). count_list (take k (nxt # rest)) RPAREN
            \<le> count_list stk1 LPAREN + count_list (take k (nxt # rest)) LPAREN"
  proof (intro allI impI)
    fix k assume "k \<le> length (nxt # rest)"
    then have "Suc k \<le> length (c # nxt # rest)" by simp
    with "3.prems"(3) have "count_list (take (Suc k) (c # nxt # rest)) RPAREN
        \<le> ?d + count_list (take (Suc k) (c # nxt # rest)) LPAREN" by blast
    then show "count_list (take k (nxt # rest)) RPAREN
            \<le> count_list stk1 LPAREN + count_list (take k (nxt # rest)) LPAREN"
      using c1 d1 by (auto split: if_splits)
  qed
  have fin: "count_list stk1 LPAREN + count_list (c # nxt # rest) RPAREN + count_list (nxt # rest) LPAREN
               = ?d + count_list (c # nxt # rest) LPAREN + count_list (nxt # rest) RPAREN"
    using c1 d1 by auto
  show ?case
  proof (cases "c \<notin> set [LPAREN, BAR] \<and> nxt \<notin> set [RPAREN, BAR, STAR, PLUS, QMARK]")
    case True
    from "3.IH" [OF a2 b2 pre [folded c2]] obtain out' stk' where
      r: "shunt (explicit_concat (nxt # rest)) (out2, stk2) = Inr (out', stk')"
      and b: "LPAREN \<notin> set out'"
      and c: "count_list stk' LPAREN + count_list (nxt # rest) RPAREN
               = count_list stk2 LPAREN + count_list (nxt # rest) LPAREN" by blast
    have ec: "explicit_concat (c # nxt # rest) = c # DOT # explicit_concat (nxt # rest)"
      using True by simp
    have "shunt (explicit_concat (c # nxt # rest)) (out, stk) = Inr (out', stk')"
      using r by (simp only: ec s1 s2)
    moreover have "count_list stk' LPAREN + count_list (c # nxt # rest) RPAREN
               = ?d + count_list (c # nxt # rest) LPAREN"
      using c fin c2 by linarith
    ultimately show ?thesis using b by blast
  next
    case False
    from "3.IH" [OF a1 b1 pre] obtain out' stk' where
      r: "shunt (explicit_concat (nxt # rest)) (out1, stk1) = Inr (out', stk')"
      and b: "LPAREN \<notin> set out'"
      and c: "count_list stk' LPAREN + count_list (nxt # rest) RPAREN
               = count_list stk1 LPAREN + count_list (nxt # rest) LPAREN" by blast
    have ec: "explicit_concat (c # nxt # rest) = c # explicit_concat (nxt # rest)"
      using False by auto
    have "shunt (explicit_concat (c # nxt # rest)) (out, stk) = Inr (out', stk')"
      using r by (simp only: ec s1)
    moreover have "count_list stk' LPAREN + count_list (c # nxt # rest) RPAREN
               = ?d + count_list (c # nxt # rest) LPAREN"
      using c fin by linarith
    ultimately show ?thesis using b by blast
  qed
qed

section \<open>The expansion loop and the concatenation pass\<close>

lemma expand_loop_unmatched:
  assumes "dropWhile (\<lambda>d. d \<noteq> RBRACKET) rest = []"
  shows "expand_loop (LBRACKET # rest) acc = Inl (ValueError ''Unmatched [ in regex'')"
  using assms by (simp del: dropWhile_eq_Nil_conv)

lemma expand_loop_bracket:
  assumes "dropWhile (\<lambda>d. d \<noteq> RBRACKET) rest = x # after"
  shows "expand_loop (LBRACKET # rest) acc =
    (let content = takeWhile (\<lambda>d. d \<noteq> RBRACKET) rest in
       if MINUS \<in> set content \<and> length content = 3 then
         if content ! 1 \<noteq> MINUS then Inl (ValueError ''Invalid character class'')
         else expand_loop after
                (acc @ [LPAREN] @ join [BAR] (class_chars (content ! 0) (content ! 2)) @ [RPAREN])
       else Inl (ValueError ''Only simple ranges like [a-z] supported''))"
  using assms by (simp add: Let_def)

lemma expand_loop_acc:
  "expand_loop xs acc = (case expand_loop xs [] of Inl e \<Rightarrow> Inl e | Inr r \<Rightarrow> Inr (acc @ r))"
proof (induction xs arbitrary: acc rule: length_induct)
  case (1 xs)
  show ?case
  proof (cases xs)
    case Nil
    then show ?thesis by simp
  next
    case xs: (Cons c rest)
    show ?thesis
    proof (cases "c = LBRACKET")
      case False
      have a: "expand_loop rest (acc @ [c])
                = (case expand_loop rest [] of Inl e \<Rightarrow> Inl e | Inr r \<Rightarrow> Inr ((acc @ [c]) @ r))"
        using "1.IH" xs by simp
      have b: "expand_loop rest [c]
                = (case expand_loop rest [] of Inl e \<Rightarrow> Inl e | Inr r \<Rightarrow> Inr ([c] @ r))"
        using "1.IH" xs by simp
      show ?thesis using False unfolding xs
        by (simp add: a b split: sum.splits)
    next
      case True
      show ?thesis
      proof (cases "dropWhile (\<lambda>d. d \<noteq> RBRACKET) rest")
        case Nil
        show ?thesis unfolding xs True expand_loop_unmatched [OF Nil] by simp
      next
        case (Cons x after)
        have "length (dropWhile (\<lambda>d. d \<noteq> RBRACKET) rest) \<le> length rest"
          by (rule length_dropWhile_le)
        then have len: "length after < length xs"
          unfolding Cons xs by simp
        from "1.IH" len have all: "\<forall>a. expand_loop after a
                = (case expand_loop after [] of Inl e \<Rightarrow> Inl e | Inr r \<Rightarrow> Inr (a @ r))"
          by blast
        define content where "content = takeWhile (\<lambda>d. d \<noteq> RBRACKET) rest"
        define g where "g = [LPAREN] @ join [BAR] (class_chars (content ! 0) (content ! 2)) @ [RPAREN]"
        have step: "expand_loop xs a =
            (if MINUS \<in> set content \<and> length content = 3 then
               if content ! 1 \<noteq> MINUS then Inl (ValueError ''Invalid character class'')
               else expand_loop after (a @ g)
             else Inl (ValueError ''Only simple ranges like [a-z] supported''))" for a
          unfolding xs True expand_loop_bracket [OF Cons] Let_def content_def g_def ..
        have ih1: "expand_loop after (acc @ g)
                = (case expand_loop after [] of Inl e \<Rightarrow> Inl e | Inr r \<Rightarrow> Inr ((acc @ g) @ r))"
          using all by (rule spec)
        have ih2: "expand_loop after ([] @ g)
                = (case expand_loop after [] of Inl e \<Rightarrow> Inl e | Inr r \<Rightarrow> Inr (([] @ g) @ r))"
          using all by (rule spec)
        show ?thesis
          unfolding step [of acc] step [of "[]"] ih1 ih2
          by (cases "expand_loop after []") simp_all
      qed
    qed
  qed
qed

lemma expand_loop_plain:
  "LBRACKET \<notin> set pre \<Longrightarrow> expand_loop (pre @ xs) acc = expand_loop xs (acc @ pre)"
  by (induction pre arbitrary: acc) auto

lemma expand_loop_class:
  assumes "x \<noteq> RBRACKET" and "y \<noteq> RBRACKET"
  shows "expand_loop (LBRACKET # x # MINUS # y # RBRACKET # post) acc
           = expand_loop post (acc @ [LPAREN] @ join [BAR] (class_chars x y) @ [RPAREN])"
  using assms by simp

lemma expand_no_bracket:
  "LBRACKET \<notin> set s \<Longrightarrow> expand_character_classes s = Inr s"
  using expand_loop_plain [of s "[]" "[]"] by (simp add: expand_character_classes_def)

lemma expand_class_general:
  assumes "x \<noteq> RBRACKET" and "y \<noteq> RBRACKET" and "LBRACKET \<notin> set pre"
    and "expand_character_classes post = Inr r"
  shows "expand_character_classes (pre @ [LBRACKET, x, MINUS, y, RBRACKET] @ post)
           = Inr (pre @ [LPAREN] @ join [BAR] (map (\<lambda>c. [c]) [x..<Suc y]) @ [RPAREN] @ r)"
proof -
  have "expand_character_classes (pre @ [LBRACKET, x, MINUS, y, RBRACKET] @ post)
          = expand_loop (LBRACKET # x # MINUS # y # RBRACKET # post) pre"
    using expand_loop_plain [OF assms(3), of _ "[]"] by (simp add: expand_character_classes_def)
  also have "\<dots> = expand_loop post (pre @ [LPAREN] @ join [BAR] (class_chars x y) @ [RPAREN])"
    by (rule expand_loop_class [OF assms(1,2)])
  also have "\<dots> = Inr ((pre @ [LPAREN] @ join [BAR] (class_chars x y) @ [RPAREN]) @ r)"
    using assms(4) expand_loop_acc [of post "pre @ [LPAREN] @ join [BAR] (class_chars x y) @ [RPAREN]"]
    by (simp add: expand_character_classes_def)
  finally show ?thesis by (simp add: class_chars_def)
qed

lemma explicit_concat_between:
  "explicit_concat (xs @ c # nxt # ys)
     = explicit_concat (xs @ [c])
       @ (if c \<notin> set [LPAREN, BAR] \<and> nxt \<notin> set [RPAREN, BAR, STAR, PLUS, QMARK]
          then [DOT] else [])
       @ explicit_concat (nxt # ys)"
  by (induction xs rule: explicit_concat.induct) auto

lemma run_append:
  "run (xs @ ys) st = (case run xs st of Inl e \<Rightarrow> Inl e | Inr st' \<Rightarrow> run ys st')"
  by (induction xs arbitrary: st) (auto split: sum.splits)

section \<open>The evaluator: counter, underflow and the edges of each construction\<close>

lemma step_underflow:
  "length stack < operands_required ch \<Longrightarrow> step ch (n, stack) = Inl IndexError"
  by (cases stack; cases "tl stack") (auto simp: operands_required_def split: if_splits)

lemma step_counter:
  "step ch (n, stack) = Inr (n', stack') \<Longrightarrow> n' = n + (if ch = DOT then 0 else 2)"
  by (cases stack; cases "tl stack") (auto simp: new_state_def split: if_splits)

lemma run_counter:
  "run cs (n, stack) = Inr (n', stack')
     \<Longrightarrow> n' = n + 2 * length (filter (\<lambda>ch. ch \<noteq> DOT) cs)"
proof (induction cs arbitrary: n stack)
  case Nil
  then show ?case by simp
next
  case (Cons ch cs)
  from Cons.prems obtain n1 stack1 where s: "step ch (n, stack) = Inr (n1, stack1)"
    and r: "run cs (n1, stack1) = Inr (n', stack')"
    by (auto split: sum.splits)
  from step_counter [OF s] Cons.IH [OF r] show ?case by simp
qed

lemma disjoint_stack_nth:
  "disjoint_stack stack \<Longrightarrow> i < j \<Longrightarrow> j < length stack
     \<Longrightarrow> fragment_states (stack ! i) \<inter> fragment_states (stack ! j) = {}"
proof (induction stack arbitrary: i j)
  case Nil
  then show ?case by simp
next
  case (Cons nfa stack)
  obtain j' where j: "j = Suc j'" using Cons.prems(2) by (cases j) auto
  show ?case
  proof (cases i)
    case 0
    have "stack ! j' \<in> set stack" using Cons.prems(3) j by simp
    then show ?thesis using Cons.prems(1) 0 j by simp
  next
    case (Suc i')
    then show ?thesis using Cons.IH [of i' j'] Cons.prems j by simp
  qed
qed

lemma dom_subset_fragment_states: "dom (transitions nfa) \<subseteq> fragment_states nfa"
  by (auto simp: fragment_states_def all_states_def tr_states_def)

lemma stack_inv_top_two:
  assumes "stack_inv (n, nfa2 # nfa1 # rest)"
  shows "dom (transitions nfa1) \<inter> dom (transitions nfa2) = {}"
proof -
  from assms have "fragment_states nfa2 \<inter> fragment_states nfa1 = {}"
    by (simp add: stack_inv_def)
  then show ?thesis
    using dom_subset_fragment_states [of nfa1] dom_subset_fragment_states [of nfa2] by blast
qed

lemma edges_star:
  "edges (transitions (star_nfa nfa1 s a)) = edges (transitions nfa1)
     \<union> {(s, EPSILON, start_state nfa1), (accept_state nfa1, EPSILON, start_state nfa1),
         (s, EPSILON, a), (accept_state nfa1, EPSILON, a)}"
  by (auto simp: star_nfa_def Let_def edges_add_transition)

lemma edges_plus:
  "edges (transitions (plus_nfa nfa1 s a)) = edges (transitions nfa1)
     \<union> {(s, EPSILON, start_state nfa1), (accept_state nfa1, EPSILON, start_state nfa1),
         (accept_state nfa1, EPSILON, a)}"
  by (auto simp: plus_nfa_def Let_def edges_add_transition)

lemma edges_optional:
  "edges (transitions (optional_nfa nfa1 s a)) = edges (transitions nfa1)
     \<union> {(s, EPSILON, start_state nfa1), (accept_state nfa1, EPSILON, a), (s, EPSILON, a)}"
  by (auto simp: optional_nfa_def Let_def edges_add_transition)

lemma edges_concat:
  assumes "dom (transitions nfa1) \<inter> dom (transitions nfa2) = {}"
  shows "edges (transitions (concat_nfa nfa1 nfa2))
     = edges (transitions nfa1) \<union> edges (transitions nfa2)
       \<union> {(accept_state nfa1, EPSILON, start_state nfa2)}"
  by (auto simp: concat_nfa_def Let_def edges_add_transition edges_merge_disjoint [OF assms])

lemma edges_alternate:
  assumes "dom (transitions nfa1) \<inter> dom (transitions nfa2) = {}"
  shows "edges (transitions (alternate_nfa nfa1 nfa2 s a))
     = edges (transitions nfa1) \<union> edges (transitions nfa2)
       \<union> {(s, EPSILON, start_state nfa1), (s, EPSILON, start_state nfa2),
           (accept_state nfa1, EPSILON, a), (accept_state nfa2, EPSILON, a)}"
  by (auto simp: alternate_nfa_def Let_def edges_add_transition edges_merge_disjoint [OF assms])

lemma edges_literal: "edges (transitions (literal_nfa ch s a)) = {(s, ch, a)}"
  by (simp add: literal_nfa_def edges_add_transition edges_empty)

lemma reachable_inv: "run pre (0, []) = Inr st \<Longrightarrow> stack_inv st"
  by (rule run_stack_inv [OF stack_inv_initial])

lemma run_ab:
  "run (ustr ''ab'') (0, [])
     = Inr (4, [literal_nfa (of_char CHR ''b'') 2 3, literal_nfa (of_char CHR ''a'') 0 1])"
  by (simp add: ustr_def new_state_def numeral_2_eq_2 [symmetric])

section \<open>Entries kept by the constructions\<close>

lemma keeps_entries_refl: "keeps_entries tr tr"
  by (auto simp: keeps_entries_def)

lemma keeps_entries_trans:
  "keeps_entries a b \<Longrightarrow> keeps_entries b c \<Longrightarrow> keeps_entries a c"
  unfolding keeps_entries_def by (meson subset_trans)

lemma keeps_entries_add: "keeps_entries tr (add_transition tr f x t)"
  by (auto simp: keeps_entries_def add_transition_def Let_def)

lemma keeps_entries_add_trans:
  "keeps_entries a b \<Longrightarrow> keeps_entries a (add_transition b f x t)"
  by (rule keeps_entries_trans [OF _ keeps_entries_add])

lemma keeps_entries_merge_right: "keeps_entries tr2 (merge_transitions tr tr2)"
  by (auto simp: keeps_entries_def merge_transitions_def)

lemma keeps_entries_merge_left:
  assumes "dom tr \<inter> dom tr2 = {}"
  shows "keeps_entries tr (merge_transitions tr tr2)"
proof -
  have "tr2 s = None" if "tr s = Some m" for s m
    using assms that by (cases "tr2 s") auto
  then show ?thesis by (auto simp: keeps_entries_def merge_transitions_def)
qed

lemma keeps_star: "keeps_entries (transitions nfa1) (transitions (star_nfa nfa1 s a))"
  by (simp add: star_nfa_def Let_def keeps_entries_add_trans keeps_entries_refl)

lemma keeps_plus: "keeps_entries (transitions nfa1) (transitions (plus_nfa nfa1 s a))"
  by (simp add: plus_nfa_def Let_def keeps_entries_add_trans keeps_entries_refl)

lemma keeps_optional: "keeps_entries (transitions nfa1) (transitions (optional_nfa nfa1 s a))"
  by (simp add: optional_nfa_def Let_def keeps_entries_add_trans keeps_entries_refl)

lemma keeps_concat:
  assumes "dom (transitions nfa1) \<inter> dom (transitions nfa2) = {}"
  shows "keeps_entries (transitions nfa1) (transitions (concat_nfa nfa1 nfa2))"
    and "keeps_entries (transitions nfa2) (transitions (concat_nfa nfa1 nfa2))"
  by (simp_all add: concat_nfa_def Let_def keeps_entries_add_trans
      keeps_entries_merge_left [OF assms] keeps_entries_merge_right)

lemma keeps_alternate:
  assumes "dom (transitions nfa1) \<inter> dom (transitions nfa2) = {}"
  shows "keeps_entries (transitions nfa1) (transitions (alternate_nfa nfa1 nfa2 s a))"
    and "keeps_entries (transitions nfa2) (transitions (alternate_nfa nfa1 nfa2 s a))"
  by (simp_all add: alternate_nfa_def Let_def keeps_entries_add_trans
      keeps_entries_merge_left [OF assms] keeps_entries_merge_right)

lemma step_keeps_entries:
  assumes "stack_inv (n, stack)" and "step ch (n, stack) = Inr (n', new # rest')"
    and "popped \<in> set (take (operands_required ch) stack)"
  shows "keeps_entries (transitions popped) (transitions new)"
proof -
  consider (lit) "ch \<notin> set [STAR, PLUS, QMARK, DOT, BAR]"
    | (star) "ch = STAR" | (plus) "ch = PLUS" | (opt) "ch = QMARK"
    | (dot) "ch = DOT" | (bar) "ch = BAR"
    by auto
  then show ?thesis
  proof cases
    case lit
    then have "operands_required ch = 0" by (auto simp: operands_required_def)
    with assms(3) show ?thesis by simp
  next
    case star
    with assms(2) obtain nfa1 rest where s: "stack = nfa1 # rest"
      and r: "new = star_nfa nfa1 n (Suc n)"
      by (cases stack) (auto simp: new_state_def)
    from assms(3) star s have "popped = nfa1" by (simp add: operands_required_def)
    then show ?thesis unfolding r by (simp add: keeps_star)
  next
    case plus
    with assms(2) obtain nfa1 rest where s: "stack = nfa1 # rest"
      and r: "new = plus_nfa nfa1 n (Suc n)"
      by (cases stack) (auto simp: new_state_def)
    from assms(3) plus s have "popped = nfa1" by (simp add: operands_required_def)
    then show ?thesis unfolding r by (simp add: keeps_plus)
  next
    case opt
    with assms(2) obtain nfa1 rest where s: "stack = nfa1 # rest"
      and r: "new = optional_nfa nfa1 n (Suc n)"
      by (cases stack) (auto simp: new_state_def)
    from assms(3) opt s have "popped = nfa1" by (simp add: operands_required_def)
    then show ?thesis unfolding r by (simp add: keeps_optional)
  next
    case dot
    with assms(2) obtain nfa2 nfa1 rest where s: "stack = nfa2 # nfa1 # rest"
      and r: "new = concat_nfa nfa1 nfa2"
      by (cases stack; cases "tl stack") (auto simp: new_state_def)
    from assms(3) dot s have p: "popped = nfa2 \<or> popped = nfa1"
      by (auto simp: operands_required_def numeral_2_eq_2)
    from stack_inv_top_two [OF assms(1) [unfolded s]] keeps_concat [of nfa1 nfa2] p
    show ?thesis unfolding r by blast
  next
    case bar
    with assms(2) obtain nfa2 nfa1 rest where s: "stack = nfa2 # nfa1 # rest"
      and r: "new = alternate_nfa nfa1 nfa2 n (Suc n)"
      by (cases stack; cases "tl stack") (auto simp: new_state_def)
    from assms(3) bar s have p: "popped = nfa2 \<or> popped = nfa1"
      by (auto simp: operands_required_def numeral_2_eq_2)
    from stack_inv_top_two [OF assms(1) [unfolded s]] keeps_alternate [of nfa1 nfa2] p
    show ?thesis unfolding r by blast
  qed
qed

section \<open>The conversion of a well-formed pattern\<close>

lemma level_pos: "1 \<le> level r"
  by (cases r) auto

lemma explicit_concat_append:
  assumes "xs \<noteq> []" and "ys \<noteq> []"
  shows "explicit_concat (xs @ ys)
     = explicit_concat xs
       @ (if last xs \<notin> set [LPAREN, BAR] \<and> hd ys \<notin> set [RPAREN, BAR, STAR, PLUS, QMARK]
          then [DOT] else [])
       @ explicit_concat ys"
proof -
  from assms(1) obtain xs' c where xs: "xs = xs' @ [c]" by (metis rev_exhaust)
  from assms(2) obtain nxt ys' where ys: "ys = nxt # ys'" by (cases ys) auto
  show ?thesis
    unfolding xs ys using explicit_concat_between [of xs' c nxt ys'] by simp
qed

lemma explicit_concat_nonempty: "xs \<noteq> [] \<Longrightarrow> explicit_concat xs \<noteq> []"
  by (cases xs rule: explicit_concat.cases) auto

lemma pattern_explicit:
  "well_formed r \<Longrightarrow>
     explicit_concat (pattern_of r) = explicit_of r
     \<and> pattern_of r \<noteq> []
     \<and> hd (pattern_of r) \<notin> set [RPAREN, BAR, STAR, PLUS, QMARK]
     \<and> last (pattern_of r) \<notin> set [LPAREN, BAR]"
proof (induction r)
  case (Lit c)
  then show ?case by simp
next
  case (Group r)
  then have ih: "explicit_concat (pattern_of r) = explicit_of r" "pattern_of r \<noteq> []"
    "hd (pattern_of r) \<notin> set [RPAREN, BAR, STAR, PLUS, QMARK]"
    "last (pattern_of r) \<notin> set [LPAREN, BAR]" by simp_all
  have a: "explicit_concat (pattern_of r @ [RPAREN]) = explicit_of r @ [RPAREN]"
    using explicit_concat_append [OF ih(2), of "[RPAREN]"] ih(1) by simp
  have "explicit_concat ([LPAREN] @ (pattern_of r @ [RPAREN]))
          = [LPAREN] @ explicit_of r @ [RPAREN]"
    using explicit_concat_append [of "[LPAREN]" "pattern_of r @ [RPAREN]"] a ih(2) by simp
  then show ?case using ih(2) by simp
next
  case (Quant q r)
  then have ih: "explicit_concat (pattern_of r) = explicit_of r" "pattern_of r \<noteq> []"
    "hd (pattern_of r) \<notin> set [RPAREN, BAR, STAR, PLUS, QMARK]"
    "last (pattern_of r) \<notin> set [LPAREN, BAR]"
    and q: "q \<in> set [STAR, PLUS, QMARK]" by simp_all
  have "explicit_concat (pattern_of r @ [q]) = explicit_of r @ [q]"
    using explicit_concat_append [OF ih(2), of "[q]"] ih(1) q by auto
  then show ?case using ih(2,3) q by auto
next
  case (Cat r s)
  then have r: "explicit_concat (pattern_of r) = explicit_of r" "pattern_of r \<noteq> []"
    "hd (pattern_of r) \<notin> set [RPAREN, BAR, STAR, PLUS, QMARK]"
    "last (pattern_of r) \<notin> set [LPAREN, BAR]"
    and s: "explicit_concat (pattern_of s) = explicit_of s" "pattern_of s \<noteq> []"
    "hd (pattern_of s) \<notin> set [RPAREN, BAR, STAR, PLUS, QMARK]"
    "last (pattern_of s) \<notin> set [LPAREN, BAR]" by simp_all
  have "explicit_concat (pattern_of r @ pattern_of s) = explicit_of r @ [DOT] @ explicit_of s"
    using explicit_concat_append [OF r(2) s(2)] r(1,4) s(1,3) by simp
  then show ?case using r(2,3) s(2,4) by simp
next
  case (Alt r s)
  then have r: "explicit_concat (pattern_of r) = explicit_of r" "pattern_of r \<noteq> []"
    "hd (pattern_of r) \<notin> set [RPAREN, BAR, STAR, PLUS, QMARK]"
    "last (pattern_of r) \<notin> set [LPAREN, BAR]"
    and s: "explicit_concat (pattern_of s) = explicit_of s" "pattern_of s \<noteq> []"
    "hd (pattern_of s) \<notin> set [RPAREN, BAR, STAR, PLUS, QMARK]"
    "last (pattern_of s) \<notin> set [LPAREN, BAR]" by simp_all
  have a: "explicit_concat ([BAR] @ pattern_of s) = [BAR] @ explicit_of s"
    using explicit_concat_append [of "[BAR]" "pattern_of s"] s(1,2) by simp
  have "explicit_concat (pattern_of r @ ([BAR] @ pattern_of s))
          = explicit_of r @ [BAR] @ explicit_of s"
    using explicit_concat_append [OF r(2), of "[BAR] @ pattern_of s"] r(1) a by simp
  then show ?case using r(2,3) s(2,4) by simp
qed

lemma top_below_mono: "top_below p stk \<Longrightarrow> p \<le> q \<Longrightarrow> top_below q stk"
  by (auto simp: top_below_def split: list.splits option.splits)

lemma pop_by_precedence_flush:
  assumes "precedence ch = Some q"
    and "\<forall>t\<in>set pend. \<exists>k. precedence t = Some k \<and> q \<le> k"
    and "top_below q stk"
  shows "pop_by_precedence ch out (pend @ stk) = Inr (out @ pend, stk)"
  using assms(2)
proof (induction pend arbitrary: out)
  case Nil
  show ?case using assms(1,3)
    by (cases stk) (auto simp: top_below_def split: option.splits)
next
  case (Cons t pend)
  from Cons.prems obtain k where "precedence t = Some k" "q \<le> k" by auto
  then show ?case using Cons.IH [of "out @ [t]"] Cons.prems assms(1) by simp
qed

lemma pop_to_paren_flush:
  "LPAREN \<notin> set pend \<Longrightarrow> pop_to_paren out (pend @ LPAREN # stk) = (out @ pend, LPAREN # stk)"
  by (induction pend arbitrary: out) auto

lemma shunt_operator:
  assumes "ch \<in> set [STAR, PLUS, QMARK, DOT, BAR]" and "precedence ch = Some q"
    and "\<forall>t\<in>set pend. \<exists>k. precedence t = Some k \<and> q \<le> k"
    and "top_below q stk"
  shows "shunt (ch # rest) (out, pend @ stk) = shunt rest (out @ pend, ch # stk)"
proof -
  have "ch \<noteq> LPAREN" "ch \<noteq> RPAREN" using assms(1) by auto
  then show ?thesis
    using assms(2) pop_by_precedence_flush [OF assms(2,3,4), of out] by simp
qed

lemma pend_weaken:
  assumes "\<forall>t\<in>set pend. \<exists>k. precedence t = Some k \<and> a \<le> k" and "b \<le> (a::nat)"
  shows "\<forall>t\<in>set pend. \<exists>k. precedence t = Some k \<and> b \<le> k"
proof
  fix t assume "t \<in> set pend"
  with assms(1) obtain k where "precedence t = Some k" "a \<le> k" by blast
  with assms(2) show "\<exists>k. precedence t = Some k \<and> b \<le> k" by auto
qed

lemma shunt_explicit_of:
  assumes "well_formed r" and "top_below (level r) stk"
  shows "\<exists>out' pend. (\<forall>rest. shunt (explicit_of r @ rest) (out, stk) = shunt rest (out', pend @ stk))
           \<and> out' @ pend = out @ postfix_of r
           \<and> (\<forall>t\<in>set pend. \<exists>k. precedence t = Some k \<and> level r \<le> k)"
  using assms
proof (induction r arbitrary: out stk)
  case (Lit c)
  then have "c \<noteq> LPAREN" "c \<noteq> RPAREN" "precedence c = None"
    by (auto simp: precedence_def)
  then have "\<forall>rest. shunt (explicit_of (Lit c) @ rest) (out, stk) = shunt rest (out @ [c], [] @ stk)"
    by simp
  then show ?case by (intro exI [of _ "out @ [c]"] exI [of _ "[]"]) simp
next
  case (Group r)
  have tb: "top_below (level r) (LPAREN # stk)"
    using level_pos [of r] by (simp add: top_below_def precedence_def)
  have wr: "well_formed r" using Group.prems(1) by simp
  from Group.IH [OF wr tb, of out] obtain out1 pend1 where
    s: "\<And>rest. shunt (explicit_of r @ rest) (out, LPAREN # stk)
                 = shunt rest (out1, pend1 @ LPAREN # stk)"
    and o: "out1 @ pend1 = out @ postfix_of r"
    and p: "\<forall>t\<in>set pend1. \<exists>k. precedence t = Some k \<and> level r \<le> k" by blast
  have "LPAREN \<notin> set pend1"
  proof
    assume "LPAREN \<in> set pend1"
    with p obtain k where "precedence LPAREN = Some k" "level r \<le> k" by blast
    then show False using level_pos [of r] by (simp add: precedence_def)
  qed
  then have pp: "pop_to_paren out1 (pend1 @ LPAREN # stk) = (out1 @ pend1, LPAREN # stk)"
    by (rule pop_to_paren_flush)
  have "shunt (explicit_of (Group r) @ rest) (out, stk) = shunt rest (out @ postfix_of r, [] @ stk)"
    for rest
    using s [of "RPAREN # rest"] pp o by simp
  then show ?case
    by (intro exI [of _ "out @ postfix_of r"] exI [of _ "[]"]) simp
next
  case (Quant q r)
  then have q: "q \<in> set [STAR, PLUS, QMARK]" and l: "3 \<le> level r" and w: "well_formed r"
    by simp_all
  have pq: "precedence q = Some 3" using q by (auto simp: precedence_def)
  have tb: "top_below (level r) stk"
    using top_below_mono [OF Quant.prems(2)] l by simp
  from Quant.IH [OF w tb, of out] obtain out1 pend1 where
    s: "\<And>rest. shunt (explicit_of r @ rest) (out, stk) = shunt rest (out1, pend1 @ stk)"
    and o: "out1 @ pend1 = out @ postfix_of r"
    and p: "\<forall>t\<in>set pend1. \<exists>k. precedence t = Some k \<and> level r \<le> k" by blast
  have p3: "\<forall>t\<in>set pend1. \<exists>k. precedence t = Some k \<and> 3 \<le> k"
    by (rule pend_weaken [OF p l])
  have t3: "top_below 3 stk" using Quant.prems(2) by simp
  have op: "shunt (q # rest) (out1, pend1 @ stk) = shunt rest (out1 @ pend1, q # stk)" for rest
    using q by (intro shunt_operator [OF _ pq p3 t3]) auto
  have "shunt (explicit_of (Quant q r) @ rest) (out, stk)
          = shunt rest (out @ postfix_of r, [q] @ stk)" for rest
    using s [of "q # rest"] op [of rest] o by simp
  then show ?case using pq
    by (intro exI [of _ "out @ postfix_of r"] exI [of _ "[q]"]) simp
next
  case (Cat r s)
  then have lr: "2 \<le> level r" and ls: "3 \<le> level s"
    and wr: "well_formed r" and ws: "well_formed s" by simp_all
  have t2: "top_below 2 stk" using Cat.prems(2) by simp
  have tr: "top_below (level r) stk" using top_below_mono [OF t2 lr] .
  from Cat.IH(1) [OF wr tr, of out] obtain out1 pend1 where
    s1: "\<And>rest. shunt (explicit_of r @ rest) (out, stk) = shunt rest (out1, pend1 @ stk)"
    and o1: "out1 @ pend1 = out @ postfix_of r"
    and p1: "\<forall>t\<in>set pend1. \<exists>k. precedence t = Some k \<and> level r \<le> k" by blast
  have p12: "\<forall>t\<in>set pend1. \<exists>k. precedence t = Some k \<and> 2 \<le> k"
    by (rule pend_weaken [OF p1 lr])
  have pd: "precedence DOT = Some 2" by (simp add: precedence_def)
  have op: "shunt (DOT # rest) (out1, pend1 @ stk) = shunt rest (out1 @ pend1, DOT # stk)"
    for rest
    by (intro shunt_operator [OF _ pd p12 t2]) simp
  have "top_below 3 (DOT # stk)" by (simp add: top_below_def precedence_def)
  then have ts: "top_below (level s) (DOT # stk)" using ls by (rule top_below_mono)
  from Cat.IH(2) [OF ws ts, of "out1 @ pend1"] obtain out2 pend2 where
    s2: "\<And>rest. shunt (explicit_of s @ rest) (out1 @ pend1, DOT # stk)
                  = shunt rest (out2, pend2 @ DOT # stk)"
    and o2: "out2 @ pend2 = (out1 @ pend1) @ postfix_of s"
    and p2: "\<forall>t\<in>set pend2. \<exists>k. precedence t = Some k \<and> level s \<le> k" by blast
  have "2 \<le> level s" using ls by simp
  then have p22: "\<forall>t\<in>set pend2. \<exists>k. precedence t = Some k \<and> 2 \<le> k"
    by (rule pend_weaken [OF p2])
  have "shunt (explicit_of (Cat r s) @ rest) (out, stk)
          = shunt rest (out2, (pend2 @ [DOT]) @ stk)" for rest
    using s1 [of "DOT # explicit_of s @ rest"] op [of "explicit_of s @ rest"] s2 [of rest]
    by simp
  moreover have "out2 @ (pend2 @ [DOT]) = out @ postfix_of (Cat r s)"
    using o1 o2 by simp
  moreover have "\<forall>t\<in>set (pend2 @ [DOT]). \<exists>k. precedence t = Some k \<and> level (Cat r s) \<le> k"
    using p22 pd by auto
  ultimately show ?case by blast
next
  case (Alt r s)
  then have ls: "2 \<le> level s"
    and wr: "well_formed r" and ws: "well_formed s" by simp_all
  have t1: "top_below 1 stk" using Alt.prems(2) by simp
  have tr: "top_below (level r) stk" using top_below_mono [OF t1 level_pos] .
  from Alt.IH(1) [OF wr tr, of out] obtain out1 pend1 where
    s1: "\<And>rest. shunt (explicit_of r @ rest) (out, stk) = shunt rest (out1, pend1 @ stk)"
    and o1: "out1 @ pend1 = out @ postfix_of r"
    and p1: "\<forall>t\<in>set pend1. \<exists>k. precedence t = Some k \<and> level r \<le> k" by blast
  have p11: "\<forall>t\<in>set pend1. \<exists>k. precedence t = Some k \<and> 1 \<le> k"
    by (rule pend_weaken [OF p1 level_pos])
  have pb: "precedence BAR = Some 1" by (simp add: precedence_def)
  have op: "shunt (BAR # rest) (out1, pend1 @ stk) = shunt rest (out1 @ pend1, BAR # stk)"
    for rest
    by (intro shunt_operator [OF _ pb p11 t1]) simp
  have "top_below 2 (BAR # stk)" by (simp add: top_below_def precedence_def)
  then have ts: "top_below (level s) (BAR # stk)" using ls by (rule top_below_mono)
  from Alt.IH(2) [OF ws ts, of "out1 @ pend1"] obtain out2 pend2 where
    s2: "\<And>rest. shunt (explicit_of s @ rest) (out1 @ pend1, BAR # stk)
                  = shunt rest (out2, pend2 @ BAR # stk)"
    and o2: "out2 @ pend2 = (out1 @ pend1) @ postfix_of s"
    and p2: "\<forall>t\<in>set pend2. \<exists>k. precedence t = Some k \<and> level s \<le> k" by blast
  have p21: "\<forall>t\<in>set pend2. \<exists>k. precedence t = Some k \<and> 1 \<le> k"
    by (rule pend_weaken [OF p2 level_pos])
  have "shunt (explicit_of (Alt r s) @ rest) (out, stk)
          = shunt rest (out2, (pend2 @ [BAR]) @ stk)" for rest
    using s1 [of "BAR # explicit_of s @ rest"] op [of "explicit_of s @ rest"] s2 [of rest]
    by simp
  moreover have "out2 @ (pend2 @ [BAR]) = out @ postfix_of (Alt r s)"
    using o1 o2 by simp
  moreover have "\<forall>t\<in>set (pend2 @ [BAR]). \<exists>k. precedence t = Some k \<and> level (Alt r s) \<le> k"
    using p21 pb by auto
  ultimately show ?case by blast
qed

lemma infix_to_postfix_pattern_of:
  assumes "well_formed r"
  shows "infix_to_postfix (pattern_of r) = Inr (postfix_of r)"
proof -
  have tb: "top_below (level r) []" by (simp add: top_below_def)
  from shunt_explicit_of [OF assms tb, of "[]"] obtain out' pend where
    s: "\<And>rest. shunt (explicit_of r @ rest) ([], []) = shunt rest (out', pend @ [])"
    and o: "out' @ pend = [] @ postfix_of r" by blast
  from s [of "[]"] have "shunt (explicit_of r) ([], []) = Inr (out', pend)" by simp
  then show ?thesis
    using pattern_explicit [OF assms] o by (simp add: infix_to_postfix_def pop_all_eq)
qed

section \<open>Claims about the expansion of character classes\<close>

text \<open>
  C6. A class \<^verbatim>\<open>[x-y]\<close> with \<open>x \<le> y\<close> (neither of them the closing bracket, which
  would end the class earlier) is replaced by \<^verbatim>\<open>(\<close>, the characters from \<open>x\<close> to \<open>y\<close>
  inclusive in ascending order separated by \<^verbatim>\<open>|\<close>, and \<^verbatim>\<open>)\<close>; the characters before
  the class, which contain no bracket, are copied unchanged, and the class is followed by
  the expansion of the rest, which is the rest itself when it contains no bracket. The
  alternation is \<open>x\<close> followed by \<^verbatim>\<open>|\<close>\<open>c\<close> for each further \<open>c\<close> up to \<open>y\<close>, and
  \<^verbatim>\<open>[a-c]\<close> becomes \<^verbatim>\<open>(a|b|c)\<close>.
\<close>

theorem valid_class_expands_to_alternation:
  assumes "x \<noteq> RBRACKET" and "y \<noteq> RBRACKET" and "x \<le> y"
    and "LBRACKET \<notin> set pre" and "expand_character_classes post = Inr r"
  shows "expand_character_classes (pre @ [LBRACKET, x, MINUS, y, RBRACKET] @ post)
           = Inr (pre @ [LPAREN] @ join [BAR] (map (\<lambda>c. [c]) [x..<Suc y]) @ [RPAREN] @ r)
         \<and> (LBRACKET \<notin> set post \<longrightarrow> r = post)
         \<and> join [BAR] (map (\<lambda>c. [c]) [x..<Suc y])
             = x # concat (map (\<lambda>c. [BAR, c]) [Suc x..<Suc y])
         \<and> expand_character_classes (ustr ''[a-c]'') = Inr (ustr ''(a|b|c)'')"
proof -
  have j: "join [sep] (map (\<lambda>c. [c]) (a # cs)) = a # concat (map (\<lambda>c. [sep, c]) cs)"
    for sep a cs
    by (induction cs arbitrary: a) auto
  have 1: "LBRACKET \<notin> set post \<longrightarrow> r = post"
    using assms(5) expand_no_bracket [of post] by auto
  have "[x..<Suc y] = x # [Suc x..<Suc y]" using assms(3) by (simp add: upt_conv_Cons)
  then have 2: "join [BAR] (map (\<lambda>c. [c]) [x..<Suc y])
             = x # concat (map (\<lambda>c. [BAR, c]) [Suc x..<Suc y])"
    using j [of BAR x "[Suc x..<Suc y]"] by simp
  have 3: "expand_character_classes (ustr ''[a-c]'') = Inr (ustr ''(a|b|c)'')"
    by (simp add: expand_character_classes_def ustr_def class_chars_def upt_rec)
  from expand_class_general [OF assms(1,2,4,5)] 1 2 3
  show ?thesis by blast
qed

theorem valid_class_expands_to_alternation_witness:
  "expand_character_classes (ustr ''x[0-2]y[a-c]'') = Inr (ustr ''x(0|1|2)y(a|b|c)'')"
proof -
  have p: "expand_character_classes (ustr ''y[a-c]'') = Inr (ustr ''y(a|b|c)'')"
    by (simp add: expand_character_classes_def ustr_def class_chars_def upt_rec)
  have "expand_character_classes
          (ustr ''x'' @ [LBRACKET, of_char CHR ''0'', MINUS, of_char CHR ''2'', RBRACKET]
             @ ustr ''y[a-c]'')
           = Inr (ustr ''x'' @ [LPAREN]
                    @ join [BAR] (map (\<lambda>c. [c]) [of_char CHR ''0''..<Suc (of_char CHR ''2'')])
                    @ [RPAREN] @ ustr ''y(a|b|c)'')"
    using valid_class_expands_to_alternation [of "of_char CHR ''0''" "of_char CHR ''2''"
        "ustr ''x''" "ustr ''y[a-c]''" "ustr ''y(a|b|c)''"] p
    by (simp add: ustr_def)
  then show ?thesis by (simp add: ustr_def upt_rec)
qed

text \<open>
  C3, as amended. The claim asks for a failure on a reversed range. The code has no check
  of the order of the bounds: for \<open>y < x\<close> the range is empty and the class is replaced
  by the empty group \<^verbatim>\<open>()\<close>, the expansion going on after it.
\<close>

theorem reversed_class_expands_to_empty_group:
  assumes "x \<noteq> RBRACKET" and "y \<noteq> RBRACKET" and "y < x"
    and "LBRACKET \<notin> set pre" and "expand_character_classes post = Inr r"
  shows "expand_character_classes (pre @ [LBRACKET, x, MINUS, y, RBRACKET] @ post)
           = Inr (pre @ [LPAREN, RPAREN] @ r)"
  using expand_class_general [OF assms(1,2,4,5)] assms(3) by simp

theorem reversed_class_expands_to_empty_group_witness:
  "expand_character_classes (ustr ''x[9-0]y'') = Inr (ustr ''x()y'')"
proof -
  have p: "expand_character_classes (ustr ''y'') = Inr (ustr ''y'')"
    by (simp add: expand_character_classes_def ustr_def)
  have "expand_character_classes (ustr ''x'' @ [LBRACKET, of_char CHR ''9'', MINUS, of_char CHR ''0'', RBRACKET] @ ustr ''y'')
           = Inr (ustr ''x'' @ [LPAREN, RPAREN] @ ustr ''y'')"
    by (rule reversed_class_expands_to_empty_group [OF _ _ _ _ p]) (simp_all add: ustr_def)
  then show ?thesis by (simp add: ustr_def)
qed

text \<open>The claim C3 as stated fails at \<^verbatim>\<open>[z-a]\<close>: the expansion returns \<^verbatim>\<open>()\<close>.\<close>

theorem reversed_class_counterexample:
  "expand_character_classes (ustr ''[z-a]'') = Inr (ustr ''()'')"
  by (simp add: expand_character_classes_def ustr_def class_chars_def)

section \<open>Claims about the conversion to postfix\<close>

text \<open>
  C5. Between two consecutive characters \<open>c\<close> and \<open>nxt\<close> of the pattern the first pass
  puts the concatenation operator exactly when \<open>c\<close> is neither \<^verbatim>\<open>(\<close> nor \<^verbatim>\<open>|\<close> and
  \<open>nxt\<close> is none of \<^verbatim>\<open>)\<close>, \<^verbatim>\<open>|\<close>, \<^verbatim>\<open>*\<close>, \<^verbatim>\<open>+\<close>, \<^verbatim>\<open>?\<close>: the result for the whole
  pattern is the result for the part up to \<open>c\<close> (which ends in \<open>c\<close>), the operator or
  nothing, and the result for the part from \<open>nxt\<close> on (which starts with \<open>nxt\<close>).
  Nothing but concatenation operators is added. The conversion then produces postfix
  order: for every well-formed expression, the first pass turns its pattern into the
  pattern with the concatenations written out, and the conversion of its pattern returns
  its postfix form. The conversion of \<^verbatim>\<open>ab\<close> is \<^verbatim>\<open>ab.\<close> and that of \<^verbatim>\<open>a*b\<close> is
  \<^verbatim>\<open>a*b.\<close>.
\<close>

theorem explicit_concatenation_rule:
  "explicit_concat (xs @ c # nxt # ys)
     = explicit_concat (xs @ [c])
       @ (if c \<notin> set [LPAREN, BAR] \<and> nxt \<notin> set [RPAREN, BAR, STAR, PLUS, QMARK]
          then [DOT] else [])
       @ explicit_concat (nxt # ys)
   \<and> last (explicit_concat (xs @ [c])) = c
   \<and> hd (explicit_concat (nxt # ys)) = nxt
   \<and> filter (\<lambda>d. d \<noteq> DOT) (explicit_concat zs) = filter (\<lambda>d. d \<noteq> DOT) zs
   \<and> (well_formed r \<longrightarrow>
         explicit_concat (pattern_of r) = explicit_of r
         \<and> infix_to_postfix (pattern_of r) = Inr (postfix_of r))
   \<and> infix_to_postfix (ustr ''ab'') = Inr (ustr ''ab.'')
   \<and> infix_to_postfix (ustr ''a*b'') = Inr (ustr ''a*b.'')"
proof -
  have ne: "explicit_concat (z # zs) \<noteq> []" for z zs
    by (cases zs) auto
  have l: "last (explicit_concat (xs @ [c])) = c"
    by (induction xs rule: explicit_concat.induct) (auto simp: ne)
  have h: "hd (explicit_concat (nxt # ys)) = nxt" by (cases ys) auto
  have f: "filter (\<lambda>d. d \<noteq> DOT) (explicit_concat zs) = filter (\<lambda>d. d \<noteq> DOT) zs"
    by (induction zs rule: explicit_concat.induct) auto
  have p: "well_formed r \<longrightarrow>
         explicit_concat (pattern_of r) = explicit_of r
         \<and> infix_to_postfix (pattern_of r) = Inr (postfix_of r)"
    using pattern_explicit [of r] infix_to_postfix_pattern_of [of r] by blast
  have a: "infix_to_postfix (ustr ''ab'') = Inr (ustr ''ab.'')"
    by (simp add: infix_to_postfix_def ustr_def precedence_def)
  have b: "infix_to_postfix (ustr ''a*b'') = Inr (ustr ''a*b.'')"
    by (simp add: infix_to_postfix_def ustr_def precedence_def)
  from explicit_concat_between [of xs c nxt ys] l h f p a b show ?thesis by blast
qed

theorem explicit_concatenation_rule_witness:
  "well_formed
     (Alt (Cat (Quant STAR (Group (Alt (Lit (of_char CHR ''a'')) (Lit (of_char CHR ''b'')))))
               (Lit (of_char CHR ''c'')))
          (Cat (Lit (of_char CHR ''d'')) (Lit (of_char CHR ''e''))))
   \<and> explicit_concat (ustr ''(a|b)*c|de'') = ustr ''(a|b)*.c|d.e''
   \<and> infix_to_postfix (ustr ''(a|b)*c|de'') = Inr (ustr ''ab|*c.de.|'')"
proof -
  let ?r = "Alt (Cat (Quant STAR (Group (Alt (Lit (of_char CHR ''a'')) (Lit (of_char CHR ''b'')))))
                     (Lit (of_char CHR ''c'')))
                (Cat (Lit (of_char CHR ''d'')) (Lit (of_char CHR ''e'')))"
  have w: "well_formed ?r" by simp
  note t = explicit_concatenation_rule
    [THEN conjunct2, THEN conjunct2, THEN conjunct2, THEN conjunct2, THEN conjunct1, of ?r]
  from t w have "explicit_concat (pattern_of ?r) = explicit_of ?r"
    and "infix_to_postfix (pattern_of ?r) = Inr (postfix_of ?r)" by blast+
  then have "explicit_concat (ustr ''(a|b)*c|de'') = ustr ''(a|b)*.c|d.e''"
    and "infix_to_postfix (ustr ''(a|b)*c|de'') = Inr (ustr ''ab|*c.de.|'')"
    by (simp_all add: ustr_def)
  with w show ?thesis by (intro conjI)
qed

text \<open>
  C2, as amended. The claim asks for a failure when an opening parenthesis is left on
  the operator stack. The code has no such check: when no closing parenthesis comes
  before its opening one and the pattern has more opening than closing parentheses, the
  scan succeeds with an opening parenthesis left on the stack, and the conversion
  returns the output followed by the stack, top first, so the result holds the surplus
  opening parentheses.
\<close>

theorem surplus_open_paren_returns_postfix:
  assumes "\<forall>k\<le>length regex.
             count_list (take k regex) RPAREN \<le> count_list (take k regex) LPAREN"
    and "count_list regex RPAREN < count_list regex LPAREN"
  shows "\<exists>out stack. shunt (explicit_concat regex) ([], []) = Inr (out, stack)
           \<and> LPAREN \<in> set stack
           \<and> infix_to_postfix regex = Inr (out @ stack)
           \<and> count_list (out @ stack) LPAREN
               = count_list regex LPAREN - count_list regex RPAREN"
proof -
  have "set ([]::ustring) \<subseteq> dom precedence" and "LPAREN \<notin> set ([]::ustring)" by simp_all
  moreover have "\<forall>k\<le>length regex. count_list (take k regex) RPAREN
       \<le> count_list ([]::ustring) LPAREN + count_list (take k regex) LPAREN"
    using assms(1) by simp
  ultimately obtain out stack where
    s: "shunt (explicit_concat regex) ([], []) = Inr (out, stack)"
    and o: "LPAREN \<notin> set out"
    and c: "count_list stack LPAREN + count_list regex RPAREN
              = count_list ([]::ustring) LPAREN + count_list regex LPAREN"
    using explicit_concat_parens_ok [of "[]" "[]" regex] by blast
  from c assms(2) have pos: "Suc 0 \<le> count_list stack LPAREN" by simp
  then have m: "LPAREN \<in> set stack" by (rule count_list_pos)
  have "count_list out LPAREN = 0" using o by (simp add: count_list_0_iff)
  then have n: "count_list (out @ stack) LPAREN = count_list regex LPAREN - count_list regex RPAREN"
    using c by simp
  have "infix_to_postfix regex = Inr (out @ stack)"
    by (simp add: infix_to_postfix_def s pop_all_eq)
  with s m n show ?thesis by blast
qed

theorem surplus_open_paren_returns_postfix_witness:
  "\<exists>out stack. shunt (explicit_concat (ustr ''(a|b'')) ([], []) = Inr (out, stack)
     \<and> LPAREN \<in> set stack
     \<and> infix_to_postfix (ustr ''(a|b'') = Inr (out @ stack)
     \<and> count_list (out @ stack) LPAREN = 1"
proof -
  let ?r = "ustr ''(a|b''"
  have z: "count_list (take k ?r) RPAREN = 0" for k
    by (auto simp: count_list_0_iff ustr_def dest: in_set_takeD)
  have h1: "\<forall>k\<le>length ?r. count_list (take k ?r) RPAREN \<le> count_list (take k ?r) LPAREN"
    using z by simp
  have h2: "count_list ?r RPAREN < count_list ?r LPAREN"
    by (simp add: ustr_def)
  have "count_list ?r LPAREN - count_list ?r RPAREN = 1" by (simp add: ustr_def)
  with surplus_open_paren_returns_postfix [OF h1 h2] show ?thesis by simp
qed

text \<open>The claim C2 as stated fails at \<^verbatim>\<open>(a|b\<close>: the conversion returns \<^verbatim>\<open>ab|(\<close>.\<close>

theorem surplus_open_paren_counterexample:
  "infix_to_postfix (ustr ''(a|b'') = Inr (ustr ''ab|('')"
  by (simp add: infix_to_postfix_def ustr_def precedence_def)

section \<open>Claims about the evaluation of the postfix string\<close>

text \<open>
  C9. On the empty token sequence the evaluator pops its result from an empty stack and
  fails; the whole pipeline on the empty pattern fails in the same way.
\<close>

theorem empty_pattern_fails:
  "postfix_to_nfa [] = Inl IndexError \<and> regex_to_nfa [] = Inl IndexError"
  by (simp add: regex_to_nfa_def expand_character_classes_def infix_to_postfix_def
      postfix_to_nfa_def)

text \<open>
  C7. For a single character that is none of \<^verbatim>\<open>[ ( ) * + ? . |\<close> the pipeline returns
  an automaton whose states are its start state 0 and its accept state 1, two different
  states, and whose transition map has the one edge from start to accept labelled with
  the character.
\<close>

theorem single_literal_nfa:
  assumes "c \<notin> {LBRACKET, LPAREN, RPAREN, STAR, PLUS, QMARK, DOT, BAR}"
  shows "\<exists>nfa. regex_to_nfa [c] = Inr nfa
     \<and> all_states nfa = {start_state nfa, accept_state nfa}
     \<and> card (all_states nfa) = 2
     \<and> start_state nfa \<noteq> accept_state nfa
     \<and> edges (transitions nfa) = {(start_state nfa, c, accept_state nfa)}
     \<and> start_state nfa = 0 \<and> accept_state nfa = 1
     \<and> transitions nfa = [0 \<mapsto> [c \<mapsto> {1}]]"
proof -
  have e: "expand_character_classes [c] = Inr [c]"
    using assms by (simp add: expand_character_classes_def)
  have p: "precedence c = None" using assms by (simp add: precedence_def)
  have i: "infix_to_postfix [c] = Inr [c]"
    using assms p by (simp add: infix_to_postfix_def)
  have b: "postfix_to_nfa [c] = Inr (literal_nfa c 0 1)"
    using assms by (simp add: postfix_to_nfa_def new_state_def)
  have r: "regex_to_nfa [c] = Inr (literal_nfa c 0 1)"
    by (simp add: regex_to_nfa_def e i b)
  have s: "all_states (literal_nfa c 0 1) = {0, 1}"
    by (auto simp: all_states_def literal_nfa_def tr_states_add_transition tr_states_empty)
  have t: "transitions (literal_nfa c 0 1) = [0 \<mapsto> [c \<mapsto> {1}]]"
    by (simp add: literal_nfa_def add_transition_def)
  show ?thesis
    using r s t edges_literal [of c 0 1]
    by (intro exI [of _ "literal_nfa c 0 1"]) (simp add: literal_nfa_def)
qed

theorem single_literal_nfa_witness:
  "\<exists>nfa. regex_to_nfa (ustr ''a'') = Inr nfa \<and> card (all_states nfa) = 2
     \<and> edges (transitions nfa) = {(0, of_char CHR ''a'', 1)}"
proof -
  from single_literal_nfa [of "of_char CHR ''a''"] obtain nfa where
    "regex_to_nfa [of_char CHR ''a''] = Inr nfa" "card (all_states nfa) = 2"
    "edges (transitions nfa) = {(start_state nfa, of_char CHR ''a'', accept_state nfa)}"
    "start_state nfa = 0" "accept_state nfa = 1"
    by auto
  then show ?thesis by (intro exI [of _ nfa]) (simp add: ustr_def)
qed

text \<open>
  C10. The character \<^verbatim>\<open>\<epsilon>\<close> is taken as a literal: the pipeline and the evaluator's step
  build for it the fragment with the single edge labelled \<open>EPSILON\<close>, the very label
  the operator constructions use (here the skip edge of \<^verbatim>\<open>?\<close> between the same two
  states). In the automaton of the pattern \<^verbatim>\<open>\<epsilon>a\<close> the edge of the literal and the edge
  added by the concatenation carry the same label.
\<close>

theorem epsilon_literal_is_epsilon_edge:
  "regex_to_nfa [EPSILON] = Inr (literal_nfa EPSILON 0 1)
   \<and> transitions (literal_nfa EPSILON 0 1) = [0 \<mapsto> [EPSILON \<mapsto> {1}]]
   \<and> step EPSILON (n, stack) = Inr (n + 2, literal_nfa EPSILON n (n + 1) # stack)
   \<and> edges (transitions (literal_nfa EPSILON n (n + 1))) = {(n, EPSILON, n + 1)}
   \<and> (n, EPSILON, n + 1) \<in> edges (transitions (optional_nfa nfa1 n (n + 1)))
   \<and> (\<exists>nfa. regex_to_nfa [EPSILON, of_char CHR ''a''] = Inr nfa
        \<and> edges (transitions nfa)
            = {(0, EPSILON, 1), (1, EPSILON, 2), (2, of_char CHR ''a'', 3)})"
proof -
  have 1: "regex_to_nfa [EPSILON] = Inr (literal_nfa EPSILON 0 1)"
    by (simp add: regex_to_nfa_def expand_character_classes_def infix_to_postfix_def
        postfix_to_nfa_def precedence_def new_state_def EPSILON_def)
  have 2: "transitions (literal_nfa EPSILON 0 1) = [0 \<mapsto> [EPSILON \<mapsto> {1}]]"
    by (simp add: literal_nfa_def add_transition_def)
  have 3: "step EPSILON (n, stack) = Inr (n + 2, literal_nfa EPSILON n (n + 1) # stack)"
    by (simp add: new_state_def EPSILON_def)
  have 4: "edges (transitions (literal_nfa EPSILON n (n + 1))) = {(n, EPSILON, n + 1)}"
    by (rule edges_literal)
  have 5: "(n, EPSILON, n + 1) \<in> edges (transitions (optional_nfa nfa1 n (n + 1)))"
    by (simp add: edges_optional)
  let ?l = "literal_nfa EPSILON 0 1" and ?a = "literal_nfa (of_char CHR ''a'') 2 3"
  have d: "dom (transitions ?l) \<inter> dom (transitions ?a) = {}"
    by (simp add: literal_nfa_def dom_add_transition)
  have r: "regex_to_nfa [EPSILON, of_char CHR ''a''] = Inr (concat_nfa ?l ?a)"
    by (simp add: regex_to_nfa_def expand_character_classes_def infix_to_postfix_def
        postfix_to_nfa_def precedence_def new_state_def EPSILON_def numeral_2_eq_2 [symmetric])
  have "edges (transitions (concat_nfa ?l ?a))
          = {(0, EPSILON, 1), (1, EPSILON, 2), (2, of_char CHR ''a'', 3)}"
    unfolding edges_concat [OF d] edges_literal by (auto simp: literal_nfa_def)
  with r have 6: "\<exists>nfa. regex_to_nfa [EPSILON, of_char CHR ''a''] = Inr nfa
        \<and> edges (transitions nfa)
            = {(0, EPSILON, 1), (1, EPSILON, 2), (2, of_char CHR ''a'', 3)}" by blast
  from 1 2 3 4 5 6 show ?thesis by blast
qed

text \<open>
  C8. After any prefix of the token sequence has been evaluated from the initial counter
  0, the counter is twice the number of tokens that issue states (all but the
  concatenation), and it issues itself next and then its successor; every state of a
  fragment on the stack is below the counter; two fragments at different positions of the
  stack share no state; the two top fragments have no key in common; and whatever token
  comes next, every (state, symbol) entry of an operand it pops is still an entry of the
  fragment it pushes, with at least the same destinations.
\<close>

theorem state_ids_fresh_and_fragments_disjoint:
  assumes "run pre (0, []) = Inr (n, stack)"
  shows "n = 2 * length (filter (\<lambda>ch. ch \<noteq> DOT) pre)
     \<and> new_state n = (n, n + 1)
     \<and> (\<forall>nfa\<in>set stack. fragment_states nfa \<subseteq> {..<n})
     \<and> (\<forall>i<length stack. \<forall>j<length stack. i \<noteq> j
           \<longrightarrow> fragment_states (stack ! i) \<inter> fragment_states (stack ! j) = {})
     \<and> (\<forall>nfa2 nfa1 rest. stack = nfa2 # nfa1 # rest
           \<longrightarrow> dom (transitions nfa1) \<inter> dom (transitions nfa2) = {})
     \<and> (\<forall>ch n' new rest'. step ch (n, stack) = Inr (n', new # rest')
           \<longrightarrow> (\<forall>popped\<in>set (take (operands_required ch) stack).
                  \<forall>s m sym d. transitions popped s = Some m \<and> m sym = Some d
                    \<longrightarrow> (\<exists>m' d'. transitions new s = Some m' \<and> m' sym = Some d'
                                \<and> d \<subseteq> d')))"
proof -
  have inv: "stack_inv (n, stack)" by (rule reachable_inv [OF assms])
  have 1: "n = 2 * length (filter (\<lambda>ch. ch \<noteq> DOT) pre)"
    using run_counter [OF assms] by simp
  have 2: "new_state n = (n, n + 1)" by (simp add: new_state_def)
  have 3: "\<forall>nfa\<in>set stack. fragment_states nfa \<subseteq> {..<n}"
    using inv by (simp add: stack_inv_def)
  have d: "disjoint_stack stack" using inv by (simp add: stack_inv_def)
  have 4: "\<forall>i<length stack. \<forall>j<length stack. i \<noteq> j
           \<longrightarrow> fragment_states (stack ! i) \<inter> fragment_states (stack ! j) = {}"
  proof (intro allI impI)
    fix i j assume i: "i < length stack" and j: "j < length stack" and ne: "i \<noteq> j"
    show "fragment_states (stack ! i) \<inter> fragment_states (stack ! j) = {}"
    proof (cases "i < j")
      case True
      then show ?thesis by (rule disjoint_stack_nth [OF d _ j])
    next
      case False
      with ne have "j < i" by simp
      from disjoint_stack_nth [OF d this i] show ?thesis by blast
    qed
  qed
  have 5: "\<forall>nfa2 nfa1 rest. stack = nfa2 # nfa1 # rest
           \<longrightarrow> dom (transitions nfa1) \<inter> dom (transitions nfa2) = {}"
    using inv stack_inv_top_two by blast
  have 6: "\<forall>ch n' new rest'. step ch (n, stack) = Inr (n', new # rest')
           \<longrightarrow> (\<forall>popped\<in>set (take (operands_required ch) stack).
                  \<forall>s m sym d. transitions popped s = Some m \<and> m sym = Some d
                    \<longrightarrow> (\<exists>m' d'. transitions new s = Some m' \<and> m' sym = Some d'
                                \<and> d \<subseteq> d'))"
  proof (intro allI impI ballI)
    fix ch n' new rest' popped s m sym d
    assume st: "step ch (n, stack) = Inr (n', new # rest')"
      and p: "popped \<in> set (take (operands_required ch) stack)"
      and e: "transitions popped s = Some m \<and> m sym = Some d"
    from step_keeps_entries [OF inv st p] e
    show "\<exists>m' d'. transitions new s = Some m' \<and> m' sym = Some d' \<and> d \<subseteq> d'"
      unfolding keeps_entries_def by blast
  qed
  from 1 2 3 4 5 6 show ?thesis by blast
qed

theorem state_ids_fresh_and_fragments_disjoint_witness:
  "run (ustr ''ab'') (0, [])
     = Inr (4, [literal_nfa (of_char CHR ''b'') 2 3, literal_nfa (of_char CHR ''a'') 0 1])
   \<and> fragment_states (literal_nfa (of_char CHR ''b'') 2 3)
       \<inter> fragment_states (literal_nfa (of_char CHR ''a'') 0 1) = {}
   \<and> dom (transitions (literal_nfa (of_char CHR ''a'') 0 1))
       \<inter> dom (transitions (literal_nfa (of_char CHR ''b'') 2 3)) = {}"
proof -
  let ?b = "literal_nfa (of_char CHR ''b'') 2 3" and ?a = "literal_nfa (of_char CHR ''a'') 0 1"
  note t = state_ids_fresh_and_fragments_disjoint [OF run_ab]
  from t have d: "\<forall>i<length [?b, ?a]. \<forall>j<length [?b, ?a]. i \<noteq> j
     \<longrightarrow> fragment_states ([?b, ?a] ! i) \<inter> fragment_states ([?b, ?a] ! j) = {}"
    by (elim conjE)
  from d [rule_format, of 0 1]
  have 1: "fragment_states ?b \<inter> fragment_states ?a = {}" by simp
  from t have "\<forall>nfa2 nfa1 rest. [?b, ?a] = nfa2 # nfa1 # rest
           \<longrightarrow> dom (transitions nfa1) \<inter> dom (transitions nfa2) = {}"
    by (elim conjE)
  then have 2: "dom (transitions ?a) \<inter> dom (transitions ?b) = {}" by simp
  from run_ab 1 2 show ?thesis by (intro conjI)
qed

text \<open>
  C4. In every state the evaluator reaches, the two states issued next belong to no
  fragment on the stack, and each operator builds the fragment of the table: the
  quantifiers pop one operand \<open>nfa1\<close>, issue \<open>n\<close> and \<open>n + 1\<close> as start and accept and
  add to the operand's edges exactly the listed epsilon edges; the concatenation pops
  the top as the second operand \<open>nfa2\<close> and then the first operand \<open>nfa1\<close>, issues no
  state and adds the one edge from the accept state of \<open>nfa1\<close> to the start state of
  \<open>nfa2\<close>; the alternation pops in the same order, issues two states and adds the
  four listed edges.
\<close>

theorem thompson_table:
  assumes "run pre (0, []) = Inr (n, stack)"
  shows "(\<forall>nfa\<in>set stack. n \<notin> fragment_states nfa \<and> n + 1 \<notin> fragment_states nfa)
     \<and> (\<forall>nfa1 rest. stack = nfa1 # rest \<longrightarrow>
          (\<exists>r. step STAR (n, stack) = Inr (n + 2, r # rest)
             \<and> start_state r = n \<and> accept_state r = n + 1
             \<and> edges (transitions r) = edges (transitions nfa1)
                 \<union> {(n, EPSILON, start_state nfa1),
                     (accept_state nfa1, EPSILON, start_state nfa1),
                     (n, EPSILON, n + 1),
                     (accept_state nfa1, EPSILON, n + 1)}))
     \<and> (\<forall>nfa1 rest. stack = nfa1 # rest \<longrightarrow>
          (\<exists>r. step PLUS (n, stack) = Inr (n + 2, r # rest)
             \<and> start_state r = n \<and> accept_state r = n + 1
             \<and> edges (transitions r) = edges (transitions nfa1)
                 \<union> {(n, EPSILON, start_state nfa1),
                     (accept_state nfa1, EPSILON, start_state nfa1),
                     (accept_state nfa1, EPSILON, n + 1)}))
     \<and> (\<forall>nfa1 rest. stack = nfa1 # rest \<longrightarrow>
          (\<exists>r. step QMARK (n, stack) = Inr (n + 2, r # rest)
             \<and> start_state r = n \<and> accept_state r = n + 1
             \<and> edges (transitions r) = edges (transitions nfa1)
                 \<union> {(n, EPSILON, start_state nfa1),
                     (accept_state nfa1, EPSILON, n + 1),
                     (n, EPSILON, n + 1)}))
     \<and> (\<forall>nfa2 nfa1 rest. stack = nfa2 # nfa1 # rest \<longrightarrow>
          (\<exists>r. step DOT (n, stack) = Inr (n, r # rest)
             \<and> start_state r = start_state nfa1 \<and> accept_state r = accept_state nfa2
             \<and> edges (transitions r) = edges (transitions nfa1) \<union> edges (transitions nfa2)
                 \<union> {(accept_state nfa1, EPSILON, start_state nfa2)}))
     \<and> (\<forall>nfa2 nfa1 rest. stack = nfa2 # nfa1 # rest \<longrightarrow>
          (\<exists>r. step BAR (n, stack) = Inr (n + 2, r # rest)
             \<and> start_state r = n \<and> accept_state r = n + 1
             \<and> edges (transitions r) = edges (transitions nfa1) \<union> edges (transitions nfa2)
                 \<union> {(n, EPSILON, start_state nfa1),
                     (n, EPSILON, start_state nfa2),
                     (accept_state nfa1, EPSILON, n + 1),
                     (accept_state nfa2, EPSILON, n + 1)}))"
proof -
  have inv: "stack_inv (n, stack)" by (rule reachable_inv [OF assms])
  have fresh: "\<forall>nfa\<in>set stack. n \<notin> fragment_states nfa \<and> n + 1 \<notin> fragment_states nfa"
    using inv by (fastforce simp: stack_inv_def)
  have star: "\<exists>r. step STAR (n, stack) = Inr (n + 2, r # rest)
             \<and> start_state r = n \<and> accept_state r = n + 1
             \<and> edges (transitions r) = edges (transitions nfa1)
                 \<union> {(n, EPSILON, start_state nfa1),
                     (accept_state nfa1, EPSILON, start_state nfa1),
                     (n, EPSILON, n + 1),
                     (accept_state nfa1, EPSILON, n + 1)}"
    if "stack = nfa1 # rest" for nfa1 rest
    using that edges_star [of nfa1 n "Suc n"]
    by (intro exI [of _ "star_nfa nfa1 n (Suc n)"]) (simp add: new_state_def star_nfa_def Let_def)
  have plus: "\<exists>r. step PLUS (n, stack) = Inr (n + 2, r # rest)
             \<and> start_state r = n \<and> accept_state r = n + 1
             \<and> edges (transitions r) = edges (transitions nfa1)
                 \<union> {(n, EPSILON, start_state nfa1),
                     (accept_state nfa1, EPSILON, start_state nfa1),
                     (accept_state nfa1, EPSILON, n + 1)}"
    if "stack = nfa1 # rest" for nfa1 rest
    using that edges_plus [of nfa1 n "Suc n"]
    by (intro exI [of _ "plus_nfa nfa1 n (Suc n)"]) (simp add: new_state_def plus_nfa_def Let_def)
  have opt: "\<exists>r. step QMARK (n, stack) = Inr (n + 2, r # rest)
             \<and> start_state r = n \<and> accept_state r = n + 1
             \<and> edges (transitions r) = edges (transitions nfa1)
                 \<union> {(n, EPSILON, start_state nfa1),
                     (accept_state nfa1, EPSILON, n + 1),
                     (n, EPSILON, n + 1)}"
    if "stack = nfa1 # rest" for nfa1 rest
    using that edges_optional [of nfa1 n "Suc n"]
    by (intro exI [of _ "optional_nfa nfa1 n (Suc n)"])
      (simp add: new_state_def optional_nfa_def Let_def)
  have dot: "\<exists>r. step DOT (n, stack) = Inr (n, r # rest)
             \<and> start_state r = start_state nfa1 \<and> accept_state r = accept_state nfa2
             \<and> edges (transitions r) = edges (transitions nfa1) \<union> edges (transitions nfa2)
                 \<union> {(accept_state nfa1, EPSILON, start_state nfa2)}"
    if "stack = nfa2 # nfa1 # rest" for nfa2 nfa1 rest
  proof -
    have d: "dom (transitions nfa1) \<inter> dom (transitions nfa2) = {}"
      by (rule stack_inv_top_two [OF inv [unfolded that]])
    show ?thesis
      using that edges_concat [OF d]
      by (intro exI [of _ "concat_nfa nfa1 nfa2"]) (simp add: concat_nfa_def Let_def)
  qed
  have bar: "\<exists>r. step BAR (n, stack) = Inr (n + 2, r # rest)
             \<and> start_state r = n \<and> accept_state r = n + 1
             \<and> edges (transitions r) = edges (transitions nfa1) \<union> edges (transitions nfa2)
                 \<union> {(n, EPSILON, start_state nfa1),
                     (n, EPSILON, start_state nfa2),
                     (accept_state nfa1, EPSILON, n + 1),
                     (accept_state nfa2, EPSILON, n + 1)}"
    if "stack = nfa2 # nfa1 # rest" for nfa2 nfa1 rest
  proof -
    have d: "dom (transitions nfa1) \<inter> dom (transitions nfa2) = {}"
      by (rule stack_inv_top_two [OF inv [unfolded that]])
    show ?thesis
      using that edges_alternate [OF d, of n "Suc n"]
      by (intro exI [of _ "alternate_nfa nfa1 nfa2 n (Suc n)"])
        (simp add: new_state_def alternate_nfa_def Let_def)
  qed
  from fresh star plus opt dot bar show ?thesis by blast
qed

theorem thompson_table_witness:
  "\<exists>r. step DOT (4, [literal_nfa (of_char CHR ''b'') 2 3, literal_nfa (of_char CHR ''a'') 0 1])
          = Inr (4, [r])
     \<and> start_state r = 0 \<and> accept_state r = 3
     \<and> edges (transitions r)
         = {(0, of_char CHR ''a'', 1), (2, of_char CHR ''b'', 3), (1, EPSILON, 2)}"
proof -
  let ?b = "literal_nfa (of_char CHR ''b'') 2 3" and ?a = "literal_nfa (of_char CHR ''a'') 0 1"
  from thompson_table [OF run_ab] have "\<forall>nfa2 nfa1 rest. [?b, ?a] = nfa2 # nfa1 # rest \<longrightarrow>
          (\<exists>r. step DOT (4, [?b, ?a]) = Inr (4, r # rest)
             \<and> start_state r = start_state nfa1 \<and> accept_state r = accept_state nfa2
             \<and> edges (transitions r) = edges (transitions nfa1) \<union> edges (transitions nfa2)
                 \<union> {(accept_state nfa1, EPSILON, start_state nfa2)})" by (elim conjE)
  then have "\<exists>r. step DOT (4, [?b, ?a]) = Inr (4, r # [])
             \<and> start_state r = start_state ?a \<and> accept_state r = accept_state ?b
             \<and> edges (transitions r) = edges (transitions ?a) \<union> edges (transitions ?b)
                 \<union> {(accept_state ?a, EPSILON, start_state ?b)}" by simp
  then obtain r where r: "step DOT (4, [?b, ?a]) = Inr (4, [r])"
     "start_state r = start_state ?a" "accept_state r = accept_state ?b"
     "edges (transitions r) = edges (transitions ?a) \<union> edges (transitions ?b)
                 \<union> {(accept_state ?a, EPSILON, start_state ?b)}" by blast
  have s: "start_state ?a = 0" "accept_state ?a = 1" "start_state ?b = 2" "accept_state ?b = 3"
    by (simp_all add: literal_nfa_def)
  have "edges (transitions r)
         = {(0, of_char CHR ''a'', 1), (2, of_char CHR ''b'', 3), (1, EPSILON, 2)}"
    unfolding r(4) edges_literal s by blast
  with r(1,2,3) s show ?thesis by (intro exI [of _ r]) simp
qed

text \<open>
  C1, as amended. An operator that finds fewer operands on the stack than it pops makes
  the evaluation fail with the \<^verbatim>\<open>IndexError\<close> of popping an empty list, whatever
  follows; the stream \<^verbatim>\<open>a|\<close> fails in this way. The code has no check of the number
  of fragments left at the end: when the tokens are consumed and the stack is not
  empty, the fragment on top is returned, whatever lies below it.
\<close>

theorem postfix_underflow_fails:
  "(run pre (0, []) = Inr (n, stack) \<and> length stack < operands_required ch
      \<longrightarrow> postfix_to_nfa (pre @ ch # post) = Inl IndexError)
   \<and> postfix_to_nfa (ustr ''a|'') = Inl IndexError
   \<and> (run postfix (0, []) = Inr (m, nfa # others) \<longrightarrow> postfix_to_nfa postfix = Inr nfa)"
proof -
  have 1: "postfix_to_nfa (pre @ ch # post) = Inl IndexError"
    if "run pre (0, []) = Inr (n, stack)" and "length stack < operands_required ch"
    using that by (simp add: postfix_to_nfa_def run_append step_underflow del: step.simps)
  have 2: "postfix_to_nfa (ustr ''a|'') = Inl IndexError"
    by (simp add: postfix_to_nfa_def ustr_def new_state_def)
  have 3: "postfix_to_nfa postfix = Inr nfa" if "run postfix (0, []) = Inr (m, nfa # others)"
    using that by (simp add: postfix_to_nfa_def)
  from 1 2 3 show ?thesis by blast
qed

theorem postfix_underflow_fails_witness:
  "run (ustr ''ab'') (0, [])
     = Inr (4, [literal_nfa (of_char CHR ''b'') 2 3, literal_nfa (of_char CHR ''a'') 0 1])
   \<and> length [literal_nfa (of_char CHR ''b'') 2 3] < operands_required BAR
   \<and> postfix_to_nfa (ustr ''b'' @ BAR # ustr ''c'') = Inl IndexError
   \<and> postfix_to_nfa (ustr ''ab'') = Inr (literal_nfa (of_char CHR ''b'') 2 3)"
proof -
  have r: "run (ustr ''b'') (0, []) = Inr (2, [literal_nfa (of_char CHR ''b'') 0 1])"
    by (simp add: ustr_def new_state_def)
  have l: "length [literal_nfa (of_char CHR ''b'') 0 1] < operands_required BAR"
    by (simp add: operands_required_def)
  from postfix_underflow_fails [of "ustr ''b''" 2 "[literal_nfa (of_char CHR ''b'') 0 1]" BAR
      "ustr ''c''" "ustr ''ab''" 4 "literal_nfa (of_char CHR ''b'') 2 3"
      "[literal_nfa (of_char CHR ''a'') 0 1]"] r l run_ab
  show ?thesis by (simp add: operands_required_def)
qed

text \<open>
  The claim C1 as stated fails at the stream \<^verbatim>\<open>ab\<close>, which leaves two fragments: the
  evaluation returns the fragment of \<^verbatim>\<open>b\<close>.
\<close>

theorem leftover_fragments_counterexample:
  "postfix_to_nfa (ustr ''ab'') = Inr (literal_nfa (of_char CHR ''b'') 2 3)"
  by (simp add: postfix_to_nfa_def ustr_def new_state_def numeral_2_eq_2 [symmetric])

end
